theory Spec2Isabelle
  imports Main "HOL-Library.Word" "HOL-Library.Multiset"
begin

section \<open>Package datatypes: the stored records\<close>

text \<open>
  The three Go structs of package \<^verbatim>\<open>datatypes\<close>. Each has the fields \<^verbatim>\<open>UID\<close>,
  \<^verbatim>\<open>Timestamp\<close> (an \<^verbatim>\<open>int64\<close>) and one content field. The field names \<^verbatim>\<open>UID\<close> and
  \<^verbatim>\<open>Timestamp\<close> occur in all three structs, so here they carry a prefix that names the
  struct. An \<^verbatim>\<open>int64\<close> is a 64-bit word read in two's complement: the only operation
  the program applies to a timestamp is the signed comparison \<^verbatim>\<open><\<close>, which is \<open><s\<close>.
\<close>

type_synonym int64 = "64 word"

record REPLCommand =
  cmdUID :: string
  cmdTimestamp :: int64
  Command :: string

record EditorContent =
  edUID :: string
  edTimestamp :: int64
  Content :: string

record ErrorInstance =
  errUID :: string
  errTimestamp :: int64
  Description :: string

definition REPLCommandKind :: string where
  "REPLCommandKind = ''REPLCommand''"

definition EditorContentKind :: string where
  "EditorContentKind = ''EditorContent''"

definition ErrorInstanceKind :: string where
  "ErrorInstanceKind = ''Error''"

section \<open>Events and sessions\<close>

text \<open>
  The interface \<^verbatim>\<open>event\<close> has exactly three implementing types, \<^verbatim>\<open>errorEvent\<close>,
  \<^verbatim>\<open>replEvent\<close> and \<^verbatim>\<open>editorEvent\<close>, each a conversion of one of the stored structs.
  A value of the interface is therefore one of three tagged alternatives, and the type
  assertions \<^verbatim>\<open>event.(replEvent)\<close> and \<^verbatim>\<open>event.(errorEvent)\<close> are pattern matches.
\<close>

datatype event =
  errorEvent ErrorInstance
| replEvent REPLCommand
| editorEvent EditorContent

fun getTimestamp :: "event \<Rightarrow> int64" where
  "getTimestamp (errorEvent e) = errTimestamp e"
| "getTimestamp (replEvent r) = cmdTimestamp r"
| "getTimestamp (editorEvent e) = edTimestamp e"

record session =
  uid :: string
  events :: "event list"

section \<open>The Datastore client\<close>

text \<open>
  The Datastore service is outside the program. The client is modelled by what its
  queries answer: for each kind the entities in the order in which a query returns
  them, and for each kind name the error, if any, with which a call on that kind fails.
  A query built with \<^verbatim>\<open>Filter("UID =", uid)\<close> answers the entities of the kind whose
  \<^verbatim>\<open>UID\<close> is \<open>uid\<close>, in the same relative order; a query without filter answers all of
  them. \<^verbatim>\<open>GetAll\<close> is generic in Go; there is one function for each destination type.
  A Go \<^verbatim>\<open>error\<close> is represented by its message.
\<close>

record client =
  entitiesError :: "ErrorInstance list"
  entitiesREPLCommand :: "REPLCommand list"
  entitiesEditorContent :: "EditorContent list"
  failure :: "string \<Rightarrow> string option"

definition GetAll_ErrorInstance :: "client \<Rightarrow> string option \<Rightarrow> string + ErrorInstance list" where
  "GetAll_ErrorInstance c flt =
     (case failure c ErrorInstanceKind of
        Some e \<Rightarrow> Inl e
      | None \<Rightarrow> Inr (case flt of
                      None \<Rightarrow> entitiesError c
                    | Some u \<Rightarrow> filter (\<lambda>x. errUID x = u) (entitiesError c)))"

definition GetAll_REPLCommand :: "client \<Rightarrow> string option \<Rightarrow> string + REPLCommand list" where
  "GetAll_REPLCommand c flt =
     (case failure c REPLCommandKind of
        Some e \<Rightarrow> Inl e
      | None \<Rightarrow> Inr (case flt of
                      None \<Rightarrow> entitiesREPLCommand c
                    | Some u \<Rightarrow> filter (\<lambda>x. cmdUID x = u) (entitiesREPLCommand c)))"

definition GetAll_EditorContent :: "client \<Rightarrow> string option \<Rightarrow> string + EditorContent list" where
  "GetAll_EditorContent c flt =
     (case failure c EditorContentKind of
        Some e \<Rightarrow> Inl e
      | None \<Rightarrow> Inr (case flt of
                      None \<Rightarrow> entitiesEditorContent c
                    | Some u \<Rightarrow> filter (\<lambda>x. edUID x = u) (entitiesEditorContent c)))"

text \<open>\<^verbatim>\<open>client.Count\<close> on a query of kind \<^verbatim>\<open>EditorContent\<close> filtered by UID.\<close>

definition Count_EditorContent :: "client \<Rightarrow> string \<Rightarrow> string + int" where
  "Count_EditorContent c u =
     (case failure c EditorContentKind of
        Some e \<Rightarrow> Inl e
      | None \<Rightarrow> Inr (int (length (filter (\<lambda>x. edUID x = u) (entitiesEditorContent c)))))"

section \<open>Library behaviour the program relies on\<close>

text \<open>
  \<^verbatim>\<open>sort.Slice(x, less)\<close> sorts \<open>x\<close> in place. Its documentation promises a
  rearrangement of \<open>x\<close> that is ordered by \<^verbatim>\<open>less\<close> and says that the sort is not
  guaranteed to be stable. The results it may leave in \<open>x\<close> are all the permutations of
  \<open>x\<close> in which no later element is \<^verbatim>\<open>less\<close> than an earlier one.
\<close>

definition sort_Slice :: "('a \<Rightarrow> 'a \<Rightarrow> bool) \<Rightarrow> 'a list \<Rightarrow> 'a list set" where
  "sort_Slice lt x = {y. mset y = mset x \<and> sorted_wrt (\<lambda>a b. \<not> lt b a) y}"

text \<open>
  A Go map is a finite map. A \<^verbatim>\<open>range\<close> loop over a map visits every entry once, in
  an order the language leaves unspecified and which may differ from one loop to the
  next. The visiting orders of a map are the duplicate-free lists of its entries.
\<close>

definition range_map :: "('k \<rightharpoonup> 'v) \<Rightarrow> ('k \<times> 'v) list set" where
  "range_map m = {ps. distinct (map fst ps) \<and> map_of ps = m}"

section \<open>newSession\<close>

text \<open>
  The three fetches in the order of the source (errors, REPL commands, editor saves),
  each returning early with the error of a failed fetch; then the events are sorted
  with \<^verbatim>\<open>sort.Slice\<close> on \<^verbatim>\<open>getTimestamp() < getTimestamp()\<close>. The function yields the
  set of results it may return.
\<close>

definition newSession :: "client \<Rightarrow> string \<Rightarrow> (string + session) set" where
  "newSession c u =
     (case GetAll_ErrorInstance c (Some u) of
        Inl e \<Rightarrow> {Inl e}
      | Inr errorInstances \<Rightarrow>
     (case GetAll_REPLCommand c (Some u) of
        Inl e \<Rightarrow> {Inl e}
      | Inr replCommands \<Rightarrow>
     (case GetAll_EditorContent c (Some u) of
        Inl e \<Rightarrow> {Inl e}
      | Inr editorContents \<Rightarrow>
          (\<lambda>evs. Inr \<lparr>uid = u, events = evs\<rparr>) `
            sort_Slice (\<lambda>a b. getTimestamp a <s getTimestamp b)
              (map errorEvent errorInstances @ map replEvent replCommands
                 @ map editorEvent editorContents))))"

section \<open>commandAndErrors\<close>

text \<open>
  The field \<^verbatim>\<open>err\<close> of \<^verbatim>\<open>commandAndError\<close> is a pointer that may be nil; the field
  \<^verbatim>\<open>cmd\<close> is a struct value. The local \<^verbatim>\<open>lastCmd\<close> is a pointer that may be nil.
  Dereferencing the nil pointer is a run-time panic, which ends the function.
\<close>

record commandAndError =
  cmd :: REPLCommand
  err :: "ErrorInstance option"

datatype panic = NilPointerDereference

text \<open>One iteration of the loop body on the state \<open>(output, lastCmd)\<close>.\<close>

fun commandAndErrors_body ::
  "commandAndError list \<times> REPLCommand option \<Rightarrow> event
     \<Rightarrow> panic + commandAndError list \<times> REPLCommand option" where
  "commandAndErrors_body (output, lastCmd) (replEvent c) =
     Inr ((case lastCmd of
             Some l \<Rightarrow> output @ [\<lparr>cmd = l, err = None\<rparr>]
           | None \<Rightarrow> output),
          Some c)"
| "commandAndErrors_body (output, lastCmd) (errorEvent e) =
     (case lastCmd of
        None \<Rightarrow> Inl NilPointerDereference
      | Some l \<Rightarrow> Inr (output @ [\<lparr>cmd = l, err = Some e\<rparr>], None))"
| "commandAndErrors_body (output, lastCmd) (editorEvent e) = Inr (output, lastCmd)"

fun commandAndErrors_loop ::
  "event list \<Rightarrow> commandAndError list \<times> REPLCommand option
     \<Rightarrow> panic + commandAndError list \<times> REPLCommand option" where
  "commandAndErrors_loop [] st = Inr st"
| "commandAndErrors_loop (ev # evs) st =
     (case commandAndErrors_body st ev of
        Inl p \<Rightarrow> Inl p
      | Inr st' \<Rightarrow> commandAndErrors_loop evs st')"

definition commandAndErrors :: "session \<Rightarrow> panic + commandAndError list" where
  "commandAndErrors u =
     (case commandAndErrors_loop (events u) ([], None) of
        Inl p \<Rightarrow> Inl p
      | Inr (output, lastCmd) \<Rightarrow> Inr output)"

fun isEditorEvent :: "event \<Rightarrow> bool" where
  "isEditorEvent (editorEvent e) = True"
| "isEditorEvent ev = False"

section \<open>Regular expressions of package regexp\<close>

text \<open>
  The program compiles eleven patterns with \<^verbatim>\<open>regexp.MustCompile\<close> and applies
  \<^verbatim>\<open>MatchString\<close> and \<^verbatim>\<open>FindString\<close> to them. The patterns are built from literal
  text, the classes \<^verbatim>\<open>.\<close> (any character but newline) and \<^verbatim>\<open>[^\s]\<close> (any character
  but tab, newline, form feed, carriage return and space), the greedy repetitions
  \<^verbatim>\<open>*\<close> and \<^verbatim>\<open>+\<close> of a class, and capturing parentheses. Neither \<^verbatim>\<open>MatchString\<close> nor
  \<^verbatim>\<open>FindString\<close> reports a capture, so a group is represented by its content. A
  compiled pattern is the sequence of its items.
\<close>

datatype cclass = AnyCharNotNL | NotSpace

datatype item = Lit string | One cclass | Star cclass | Plus cclass

type_synonym regexp = "item list"

text \<open>
  A Go string is a sequence of bytes, and the regexp package reads it one UTF-8 encoded
  character at a time: a character is one to four bytes, and a byte that does not start
  a well-formed encoding is read as one character (the replacement character) of width
  one. \<open>runeWidth\<close> is the width that \<^verbatim>\<open>utf8.DecodeRuneInString\<close> reports for the start
  of a string.
\<close>

definition inRange :: "nat \<Rightarrow> nat \<Rightarrow> char \<Rightarrow> bool" where
  "inRange lo hi c = (lo \<le> of_char c \<and> (of_char c :: nat) \<le> hi)"

fun runeWidth :: "string \<Rightarrow> nat" where
  "runeWidth [] = 0"
| "runeWidth (c # s) =
     (let b = (of_char c :: nat) in
      if b < 0xC2 \<or> 0xF4 < b then 1
      else if b < 0xE0 then
        (case s of
           s1 # _ \<Rightarrow> if inRange 0x80 0xBF s1 then 2 else 1
         | _ \<Rightarrow> 1)
      else if b < 0xF0 then
        (case s of
           s1 # s2 # _ \<Rightarrow>
             if inRange (if b = 0xE0 then 0xA0 else 0x80) (if b = 0xED then 0x9F else 0xBF) s1
                \<and> inRange 0x80 0xBF s2
             then 3 else 1
         | _ \<Rightarrow> 1)
      else
        (case s of
           s1 # s2 # s3 # _ \<Rightarrow>
             if inRange (if b = 0xF0 then 0x90 else 0x80) (if b = 0xF4 then 0x8F else 0xBF) s1
                \<and> inRange 0x80 0xBF s2 \<and> inRange 0x80 0xBF s3
             then 4 else 1
         | _ \<Rightarrow> 1))"

text \<open>The input that follows its first character.\<close>

fun afterRune :: "string \<Rightarrow> string" where
  "afterRune [] = []"
| "afterRune (c # s) = drop (runeWidth (c # s) - 1) s"

text \<open>
  Membership of the character that starts with byte \<open>c\<close> in a class. Newline and the
  five white-space characters are single bytes below 128, and a byte from 128 on starts
  a character that is none of them, so the first byte decides.
\<close>

fun inClass :: "cclass \<Rightarrow> char \<Rightarrow> bool" where
  "inClass AnyCharNotNL c = (c \<noteq> CHR 0x0A)"
| "inClass NotSpace c =
     (c \<noteq> CHR 0x09 \<and> c \<noteq> CHR 0x0A \<and> c \<noteq> CHR 0x0C \<and> c \<noteq> CHR 0x0D \<and> c \<noteq> CHR 0x20)"

fun matchLit :: "string \<Rightarrow> string \<Rightarrow> string option" where
  "matchLit [] s = Some s"
| "matchLit (a # l) [] = None"
| "matchLit (a # l) (c # s) = (if a = c then matchLit l s else None)"

text \<open>
  \<open>matchHere re s\<close> matches \<open>re\<close> at the start of \<open>s\<close> and yields the input left after
  the match, or \<open>None\<close>. Among the matches at one starting point Go prefers the one that
  a backtracking search finds first; a greedy repetition tries to take one more
  character before it tries to stop.
\<close>

fun matchHere :: "regexp \<Rightarrow> string \<Rightarrow> string option" where
  "matchHere [] s = Some s"
| "matchHere (Lit l # re) s =
     (case matchLit l s of
        None \<Rightarrow> None
      | Some s' \<Rightarrow> matchHere re s')"
| "matchHere (One cl # re) [] = None"
| "matchHere (One cl # re) (c # s) =
     (if inClass cl c then matchHere re (afterRune (c # s)) else None)"
| "matchHere (Star cl # re) [] = matchHere re []"
| "matchHere (Star cl # re) (c # s) =
     (if inClass cl c then
        (case matchHere (Star cl # re) (afterRune (c # s)) of
           Some rest \<Rightarrow> Some rest
         | None \<Rightarrow> matchHere re (c # s))
      else matchHere re (c # s))"
| "matchHere (Plus cl # re) [] = None"
| "matchHere (Plus cl # re) (c # s) =
     (if inClass cl c then matchHere (Star cl # re) (afterRune (c # s)) else None)"

text \<open>
  The leftmost match: the search tries the starting points from left to right, one
  character apart, and yields the text of the first match it finds.
\<close>

fun leftmost :: "regexp \<Rightarrow> string \<Rightarrow> string option" where
  "leftmost re [] =
     (case matchHere re [] of
        Some rest \<Rightarrow> Some []
      | None \<Rightarrow> None)"
| "leftmost re (c # s) =
     (case matchHere re (c # s) of
        Some rest \<Rightarrow> Some (take (length (c # s) - length rest) (c # s))
      | None \<Rightarrow> leftmost re (afterRune (c # s)))"

definition MatchString :: "regexp \<Rightarrow> string \<Rightarrow> bool" where
  "MatchString re s = (leftmost re s \<noteq> None)"

text \<open>\<^verbatim>\<open>FindString\<close> returns the text of the leftmost match, or the empty string.\<close>

definition FindString :: "regexp \<Rightarrow> string \<Rightarrow> string" where
  "FindString re s = (case leftmost re s of None \<Rightarrow> [] | Some m \<Rightarrow> m)"

section \<open>errPatterns\<close>

text \<open>
  The entries of the map literal, in the order of the source text. The ninth key is
  spelt \<^verbatim>\<open>ArugmentMustBeOfType\<close> in the source. \<open>errPatterns\<close> is the Go map.
\<close>

definition errPatterns_entries :: "(string \<times> regexp) list" where
  "errPatterns_entries =
     [(''UnknownCallable'',
         [Lit (''Unknown callable '' @ [CHR 0x27]), Star AnyCharNotNL, Lit [CHR 0x27]]),
      (''VariableHasNoValue'',
         [Lit ''Variable '', Plus NotSpace, Lit '' has no value'']),
      (''InvalidNumberOfArgs'',
         [Lit ''Invalid number of args'']),
      (''CallableMustBeSymbol'',
         [Lit ''Callable name must be a symbol'']),
      (''NoSwitchWithID'',
         [Lit ''No such switch with ID '', Plus NotSpace, Lit '' exists'']),
      (''PropellantGenerator'',
         [Lit ''Propellant cannot be powered with backup generator'']),
      (''LightGenerator'',
         [Lit ''Light cannot be powered with backup generator'']),
      (''NoThrusterWithID'',
         [Lit ''No thruster with ID '', Plus NotSpace, Lit '' exists'']),
      (''ArugmentMustBeOfType'',
         [Lit ''Argument '', Plus NotSpace, Lit '' must be of type '', Plus NotSpace,
          Lit '', got '', Plus NotSpace]),
      (''TooManyArguments'',
         [Lit ''Too many arguments'']),
      (''ArgsMustBeNumbers'',
         [Lit ''All arguments to '', One AnyCharNotNL, Lit '' must be numbers''])]"

definition errPatterns :: "string \<rightharpoonup> regexp" where
  "errPatterns = map_of errPatterns_entries"

section \<open>errorTypeCount\<close>

text \<open>
  \<^verbatim>\<open>m[k]++\<close> on a \<^verbatim>\<open>map[string]int\<close>: an absent key reads as 0. A count is a Go \<^verbatim>\<open>int\<close>;
  it is bounded by the number of fetched records, far below the range of a machine
  integer, and is an integer here.
\<close>

definition increment :: "(string \<rightharpoonup> int) \<Rightarrow> string \<Rightarrow> (string \<rightharpoonup> int)" where
  "increment m k = m(k \<mapsto> (case m k of None \<Rightarrow> 0 | Some n \<Rightarrow> n) + 1)"

text \<open>
  The inner loop over \<^verbatim>\<open>errPatterns\<close> for one description, along the order \<open>ps\<close> in
  which this execution of the \<^verbatim>\<open>range\<close> visits the entries: the first pattern that
  matches has its bucket incremented, and the loop breaks.
\<close>

fun errorTypeCount_inner ::
  "(string \<times> regexp) list \<Rightarrow> string \<Rightarrow> (string \<rightharpoonup> int) \<Rightarrow> (string \<rightharpoonup> int)" where
  "errorTypeCount_inner [] d matchCnt = matchCnt"
| "errorTypeCount_inner ((name, pattern) # ps) d matchCnt =
     (if MatchString pattern d then increment matchCnt name
      else errorTypeCount_inner ps d matchCnt)"

text \<open>
  The label under which the inner loop counts a description: the name at which the
  loop breaks, if it does.
\<close>

fun classify :: "(string \<times> regexp) list \<Rightarrow> string \<Rightarrow> string option" where
  "classify [] d = None"
| "classify ((name, pattern) # ps) d =
     (if MatchString pattern d then Some name else classify ps d)"

text \<open>
  The outer loop. Each iteration runs a new \<^verbatim>\<open>range\<close> over \<^verbatim>\<open>errPatterns\<close>, which may
  visit the entries in any order: \<open>errorTypeCount_loop es m m'\<close> holds when the loop over
  the instances \<open>es\<close>, started with \<^verbatim>\<open>matchCnt\<close> \<open>= m\<close>, can end with \<^verbatim>\<open>matchCnt\<close> \<open>= m'\<close>.
\<close>

inductive errorTypeCount_loop ::
  "ErrorInstance list \<Rightarrow> (string \<rightharpoonup> int) \<Rightarrow> (string \<rightharpoonup> int) \<Rightarrow> bool" where
  loop_done: "errorTypeCount_loop [] m m"
| loop_step:
    "ps \<in> range_map errPatterns \<Longrightarrow>
     errorTypeCount_loop es (errorTypeCount_inner ps (Description e) m) m' \<Longrightarrow>
     errorTypeCount_loop (e # es) m m'"

definition errorTypeCount :: "client \<Rightarrow> (string + (string \<rightharpoonup> int)) set" where
  "errorTypeCount c =
     (case GetAll_ErrorInstance c None of
        Inl e \<Rightarrow> {Inl (''getting instances: '' @ e)}
      | Inr errorInstances \<Rightarrow> Inr ` {m. errorTypeCount_loop errorInstances Map.empty m})"

text \<open>A description that some pattern of the table matches.\<close>

definition matchesSomePattern :: "string \<Rightarrow> bool" where
  "matchesSomePattern d = list_ex (\<lambda>(name, pattern). MatchString pattern d) errPatterns_entries"

text \<open>The sum of all bucket counts of a histogram.\<close>

definition totalCount :: "(string \<rightharpoonup> int) \<Rightarrow> int" where
  "totalCount m = (\<Sum>k \<in> dom m. case m k of None \<Rightarrow> 0 | Some n \<Rightarrow> n)"

section \<open>variableHasNoValueCount\<close>

record variableHasNoValueInfo =
  variable :: string
  count_info :: int

text \<open>
  The first loop. \<^verbatim>\<open>errPatterns["VariableHasNoValue"]\<close> reads the map; an absent key
  would read as the nil pattern, on which \<^verbatim>\<open>FindString\<close> panics.
\<close>

fun variableHasNoValueCount_tally ::
  "ErrorInstance list \<Rightarrow> (string \<rightharpoonup> int) \<Rightarrow> panic + (string \<rightharpoonup> int)" where
  "variableHasNoValueCount_tally [] instanceCnt = Inr instanceCnt"
| "variableHasNoValueCount_tally (e # es) instanceCnt =
     (case errPatterns ''VariableHasNoValue'' of
        None \<Rightarrow> Inl NilPointerDereference
      | Some pattern \<Rightarrow>
          (let variable = FindString pattern (Description e) in
           variableHasNoValueCount_tally es
             (if variable \<noteq> [] then increment instanceCnt variable else instanceCnt)))"

text \<open>
  The second loop ranges over \<^verbatim>\<open>instanceCnt\<close> in some visiting order \<open>ps\<close> and appends
  one entry for each key; \<^verbatim>\<open>sort.Slice\<close> then orders the entries on
  \<^verbatim>\<open>sorted[i].count > sorted[j].count\<close>.
\<close>

definition variableHasNoValueCount ::
  "client \<Rightarrow> (panic + string + variableHasNoValueInfo list) set" where
  "variableHasNoValueCount c =
     (case GetAll_ErrorInstance c None of
        Inl e \<Rightarrow> {Inr (Inl (''getting instances: '' @ e))}
      | Inr errorInstances \<Rightarrow>
     (case variableHasNoValueCount_tally errorInstances Map.empty of
        Inl p \<Rightarrow> {Inl p}
      | Inr instanceCnt \<Rightarrow>
          (\<Union>ps \<in> range_map instanceCnt.
             (\<lambda>sorted. Inr (Inr sorted)) `
               sort_Slice (\<lambda>a b. count_info a > count_info b)
                 (map (\<lambda>(v, n). \<lparr>variable = v, count_info = n\<rparr>) ps))))"

section \<open>editorUse and getUIDs\<close>

fun editorUse_loop :: "client \<Rightarrow> string list \<Rightarrow> int \<Rightarrow> string + int" where
  "editorUse_loop c [] usedEditorCount = Inr usedEditorCount"
| "editorUse_loop c (u # uids) usedEditorCount =
     (case Count_EditorContent c u of
        Inl e \<Rightarrow> Inl e
      | Inr n \<Rightarrow> editorUse_loop c uids (if n > 0 then usedEditorCount + 1 else usedEditorCount))"

definition editorUse :: "client \<Rightarrow> string list \<Rightarrow> string + int" where
  "editorUse c uids = editorUse_loop c uids 0"

text \<open>The map used as a set: \<^verbatim>\<open>set[cmd.UID] = struct{}{}\<close> for every fetched command.\<close>

fun getUIDs_set :: "REPLCommand list \<Rightarrow> (string \<rightharpoonup> unit) \<Rightarrow> (string \<rightharpoonup> unit)" where
  "getUIDs_set [] uidSet = uidSet"
| "getUIDs_set (r # replCommands) uidSet = getUIDs_set replCommands (uidSet(cmdUID r \<mapsto> ()))"

text \<open>The output collects the keys in the order in which the \<^verbatim>\<open>range\<close> visits them.\<close>

definition getUIDs :: "client \<Rightarrow> (string + string list) set" where
  "getUIDs c =
     (case GetAll_REPLCommand c None of
        Inl e \<Rightarrow> {Inl (''getting REPL instances: '' @ e)}
      | Inr replCommands \<Rightarrow>
          (\<lambda>ps. Inr (map fst ps)) ` range_map (getUIDs_set replCommands Map.empty))"

section \<open>Vocabulary of the statements\<close>

text \<open>
  The events that \<^verbatim>\<open>newSession\<close> appends for a user before it sorts: the user's
  errors, then the REPL commands, then the editor saves, each in the order in which the
  store returns them.
\<close>

definition fetched :: "client \<Rightarrow> string \<Rightarrow> event list" where
  "fetched c u =
     map errorEvent (filter (\<lambda>x. errUID x = u) (entitiesError c))
     @ map replEvent (filter (\<lambda>x. cmdUID x = u) (entitiesREPLCommand c))
     @ map editorEvent (filter (\<lambda>x. edUID x = u) (entitiesEditorContent c))"

text \<open>No call on the store fails.\<close>

definition available :: "client \<Rightarrow> bool" where
  "available c \<longleftrightarrow>
     failure c ErrorInstanceKind = None \<and> failure c REPLCommandKind = None
     \<and> failure c EditorContentKind = None"

text \<open>
  A store with the records of two users: user \<open>u\<close> ran a command at 1, met an error at
  2 and ran a command at 3; user \<open>v\<close> ran a command at 4 and met an error at 5.
\<close>

definition store_two_users :: client where
  "store_two_users =
     \<lparr>entitiesError =
        [\<lparr>errUID = ''v'', errTimestamp = 5, Description = ''Too many arguments''\<rparr>,
         \<lparr>errUID = ''u'', errTimestamp = 2, Description = ''Variable x has no value''\<rparr>],
      entitiesREPLCommand =
        [\<lparr>cmdUID = ''u'', cmdTimestamp = 1, Command = ''(print x)''\<rparr>,
         \<lparr>cmdUID = ''v'', cmdTimestamp = 4, Command = ''(f 1 2 3)''\<rparr>,
         \<lparr>cmdUID = ''u'', cmdTimestamp = 3, Command = ''(set x 1)''\<rparr>],
      entitiesEditorContent = [],
      failure = (\<lambda>k. None)\<rparr>"

text \<open>
  A store with three errors of one user: one that the pattern \<^verbatim>\<open>TooManyArguments\<close>
  matches, one that no pattern matches, and one that \<^verbatim>\<open>VariableHasNoValue\<close> matches.
\<close>

definition store_three_errors :: client where
  "store_three_errors =
     \<lparr>entitiesError =
        [\<lparr>errUID = ''u'', errTimestamp = 1, Description = ''Too many arguments''\<rparr>,
         \<lparr>errUID = ''u'', errTimestamp = 2, Description = ''a completely unrelated failure''\<rparr>,
         \<lparr>errUID = ''u'', errTimestamp = 3, Description = ''Variable x has no value''\<rparr>],
      entitiesREPLCommand = [],
      entitiesEditorContent = [],
      failure = (\<lambda>k. None)\<rparr>"

text \<open>
  The pattern stored under the key \<^verbatim>\<open>VariableHasNoValue\<close>, and the number of records of
  a list whose description has the leftmost match \<open>k\<close> of that pattern.
\<close>

definition variableHasNoValue :: regexp where
  "variableHasNoValue = [Lit ''Variable '', Plus NotSpace, Lit '' has no value'']"

definition occurrences :: "ErrorInstance list \<Rightarrow> string \<Rightarrow> nat" where
  "occurrences es k =
     length (filter (\<lambda>e. FindString variableHasNoValue (Description e) = k) es)"

text \<open>
  A store with two errors on different variables, and a store of four users: \<open>u\<close> ran
  two commands and saved the editor, \<open>x\<close> ran a command, \<open>v\<close> only met an error and \<open>w\<close>
  only saved the editor.
\<close>

definition store_two_variables :: client where
  "store_two_variables =
     \<lparr>entitiesError =
        [\<lparr>errUID = ''u'', errTimestamp = 1, Description = ''Variable a has no value''\<rparr>,
         \<lparr>errUID = ''u'', errTimestamp = 2, Description = ''Variable b has no value''\<rparr>],
      entitiesREPLCommand = [],
      entitiesEditorContent = [],
      failure = (\<lambda>k. None)\<rparr>"

definition store_four_users :: client where
  "store_four_users =
     \<lparr>entitiesError =
        [\<lparr>errUID = ''v'', errTimestamp = 5, Description = ''Too many arguments''\<rparr>],
      entitiesREPLCommand =
        [\<lparr>cmdUID = ''u'', cmdTimestamp = 1, Command = ''(print x)''\<rparr>,
         \<lparr>cmdUID = ''x'', cmdTimestamp = 4, Command = ''(f 1 2 3)''\<rparr>,
         \<lparr>cmdUID = ''u'', cmdTimestamp = 3, Command = ''(set x 1)''\<rparr>],
      entitiesEditorContent =
        [\<lparr>edUID = ''u'', edTimestamp = 2, Content = ''(print 1)''\<rparr>,
         \<lparr>edUID = ''w'', edTimestamp = 6, Content = ''(print 2)''\<rparr>],
      failure = (\<lambda>k. None)\<rparr>"

text \<open>
  A store with two errors: the description of the first is matched by both the patterns
  \<^verbatim>\<open>TooManyArguments\<close> and \<^verbatim>\<open>VariableHasNoValue\<close>, that of the second by
  \<^verbatim>\<open>TooManyArguments\<close> only.
\<close>

definition store_overlapping_error :: client where
  "store_overlapping_error =
     \<lparr>entitiesError =
        [\<lparr>errUID = ''u'', errTimestamp = 1,
          Description = ''Too many arguments: Variable foo has no value''\<rparr>,
         \<lparr>errUID = ''u'', errTimestamp = 2, Description = ''Too many arguments''\<rparr>],
      entitiesREPLCommand = [],
      entitiesEditorContent = [],
      failure = (\<lambda>k. None)\<rparr>"

section \<open>Properties of commandAndErrors\<close>

lemma commandAndErrors_loop_append:
  "commandAndErrors_loop (xs @ ys) st =
     (case commandAndErrors_loop xs st of
        Inl p \<Rightarrow> Inl p
      | Inr st' \<Rightarrow> commandAndErrors_loop ys st')"
  by (induction xs arbitrary: st) (auto split: sum.splits)

lemma commandAndErrors_loop_editor:
  "list_all isEditorEvent eds \<Longrightarrow> commandAndErrors_loop eds st = Inr st"
proof (induction eds)
  case Nil
  then show ?case by simp
next
  case (Cons ev eds)
  then obtain e where "ev = editorEvent e"
    by (cases ev) auto
  with Cons show ?case
    by (cases st) simp
qed

lemma commandAndErrors_loop_drop_editor:
  "commandAndErrors_loop (filter (\<lambda>ev. \<not> isEditorEvent ev) evs) st
     = commandAndErrors_loop evs st"
proof (induction evs arbitrary: st)
  case Nil
  then show ?case by simp
next
  case (Cons ev evs)
  show ?case
  proof (cases ev)
    case (editorEvent e)
    with Cons show ?thesis by (cases st) simp
  next
    case (errorEvent e)
    with Cons show ?thesis by (simp split: sum.splits)
  next
    case (replEvent r)
    with Cons show ?thesis by (simp split: sum.splits)
  qed
qed

text \<open>
  C2. The claim: commandAndErrors is total, and on an error event met while no command
  is pending it emits a pair with an absent command. The code dereferences the nil
  \<^verbatim>\<open>lastCmd\<close> there. It panics on the session whose only event is an error, and on the
  session of a command followed by two errors, where the first error has cleared the
  pending command.
\<close>

theorem commandAndErrors_error_first_panics:
  "commandAndErrors
     \<lparr>uid = ''u'',
      events = [errorEvent \<lparr>errUID = ''u'', errTimestamp = 1,
                            Description = ''Too many arguments''\<rparr>]\<rparr>
   = Inl NilPointerDereference
   \<and> commandAndErrors
     \<lparr>uid = ''u'',
      events = [replEvent \<lparr>cmdUID = ''u'', cmdTimestamp = 1, Command = ''(f 1 2 3)''\<rparr>,
                errorEvent \<lparr>errUID = ''u'', errTimestamp = 2,
                            Description = ''Too many arguments''\<rparr>,
                errorEvent \<lparr>errUID = ''u'', errTimestamp = 3,
                            Description = ''Unknown callable''\<rparr>]\<rparr>
   = Inl NilPointerDereference"
  by (simp add: commandAndErrors_def)

section \<open>Properties of sort.Slice on timestamps\<close>

lemma sort_Slice_getTimestamp:
  "ys \<in> sort_Slice (\<lambda>a b. getTimestamp a <s getTimestamp b) xs \<longleftrightarrow>
     mset ys = mset xs \<and> sorted (map (\<lambda>e. sint (getTimestamp e)) ys)"
  by (simp add: sort_Slice_def sorted_map word_sless_alt not_less)

lemma sort_Slice_stable_member:
  "sort_key (\<lambda>e. sint (getTimestamp e)) xs
     \<in> sort_Slice (\<lambda>a b. getTimestamp a <s getTimestamp b) xs"
  by (simp add: sort_Slice_getTimestamp)

text \<open>With pairwise distinct timestamps only one order is sorted.\<close>

lemma sort_Slice_distinct_timestamps:
  assumes "distinct (map getTimestamp xs)"
  shows "sort_Slice (\<lambda>a b. getTimestamp a <s getTimestamp b) xs =
           {sort_key (\<lambda>e. sint (getTimestamp e)) xs}"
proof -
  have inj: "inj_on (\<lambda>e. sint (getTimestamp e)) (set xs)"
    using assms by (auto simp: distinct_map inj_on_def dest!: signed_word_eqI)
  have "ys = sort_key (\<lambda>e. sint (getTimestamp e)) xs"
    if "ys \<in> sort_Slice (\<lambda>a b. getTimestamp a <s getTimestamp b) xs" for ys
  proof -
    from that have "mset xs = mset ys" and "sorted (map (\<lambda>e. sint (getTimestamp e)) ys)"
      by (simp_all add: sort_Slice_getTimestamp)
    then show ?thesis
      using inj by (simp add: sort_key_inj_key_eq)
  qed
  then show ?thesis
    using sort_Slice_stable_member [of xs] by blast
qed

section \<open>Pairing\<close>

text \<open>
  C4. For the session made of command \<open>cmdA\<close> at time 1, command \<open>cmdB\<close> at time 3 and
  error \<open>errA\<close> at time 2, whose events sorting can only leave in the order \<open>cmdA\<close>,
  \<open>errA\<close>, \<open>cmdB\<close>, commandAndErrors returns exactly the pair of \<open>cmdA\<close> with \<open>errA\<close>.
  In general, when a command \<open>c\<close> is followed by editor saves only, the result is what
  the loop had emitted before \<open>c\<close>, followed by the pair without error of the command
  that \<open>c\<close> superseded, if one was pending: no pair is emitted for \<open>c\<close>. An editor save
  leaves both the output and the pending command as they are, and a session without
  its editor saves has the same pairs.
\<close>

theorem commandAndErrors_pairs:
  "(cmdTimestamp cmdA = 1 \<and> errTimestamp errA = 2 \<and> cmdTimestamp cmdB = 3 \<and>
    evs \<in> sort_Slice (\<lambda>a b. getTimestamp a <s getTimestamp b)
            [errorEvent errA, replEvent cmdA, replEvent cmdB]
      \<longrightarrow> evs = [replEvent cmdA, errorEvent errA, replEvent cmdB] \<and>
          commandAndErrors \<lparr>uid = u, events = evs\<rparr> = Inr [\<lparr>cmd = cmdA, err = Some errA\<rparr>])
   \<and> (commandAndErrors_loop pre ([], None) = Inr (out, pending) \<and> list_all isEditorEvent eds
      \<longrightarrow> commandAndErrors \<lparr>uid = u, events = pre @ replEvent c # eds\<rparr>
            = Inr (case pending of
                     None \<Rightarrow> out
                   | Some p \<Rightarrow> out @ [\<lparr>cmd = p, err = None\<rparr>]))
   \<and> commandAndErrors_body (out, pending) (editorEvent ed) = Inr (out, pending)
   \<and> commandAndErrors \<lparr>uid = u, events = filter (\<lambda>ev. \<not> isEditorEvent ev) whole\<rparr>
        = commandAndErrors \<lparr>uid = u, events = whole\<rparr>"
proof (intro conjI impI)
  assume a: "cmdTimestamp cmdA = 1 \<and> errTimestamp errA = 2 \<and> cmdTimestamp cmdB = 3 \<and>
    evs \<in> sort_Slice (\<lambda>a b. getTimestamp a <s getTimestamp b)
            [errorEvent errA, replEvent cmdA, replEvent cmdB]"
  then have "distinct (map getTimestamp [errorEvent errA, replEvent cmdA, replEvent cmdB])"
    by simp
  from sort_Slice_distinct_timestamps [OF this] a
  show evs: "evs = [replEvent cmdA, errorEvent errA, replEvent cmdB]"
    by simp
  show "commandAndErrors \<lparr>uid = u, events = evs\<rparr> = Inr [\<lparr>cmd = cmdA, err = Some errA\<rparr>]"
    by (simp add: evs commandAndErrors_def)
next
  assume "commandAndErrors_loop pre ([], None) = Inr (out, pending)
            \<and> list_all isEditorEvent eds"
  then show "commandAndErrors \<lparr>uid = u, events = pre @ replEvent c # eds\<rparr>
            = Inr (case pending of
                     None \<Rightarrow> out
                   | Some p \<Rightarrow> out @ [\<lparr>cmd = p, err = None\<rparr>])"
    by (simp add: commandAndErrors_def commandAndErrors_loop_append
        commandAndErrors_loop_editor split: option.splits)
next
  show "commandAndErrors_body (out, pending) (editorEvent ed) = Inr (out, pending)"
    by simp
next
  show "commandAndErrors \<lparr>uid = u, events = filter (\<lambda>ev. \<not> isEditorEvent ev) whole\<rparr>
        = commandAndErrors \<lparr>uid = u, events = whole\<rparr>"
    by (simp add: commandAndErrors_def commandAndErrors_loop_drop_editor)
qed

text \<open>
  The theorem at the commands \<^verbatim>\<open>(print x)\<close> at 1 and \<^verbatim>\<open>(set x 1)\<close> at 3 and the error at
  2; and at the session of the first command, an editor save, the second command and
  another editor save, where the only pair is the first command without error.
\<close>

theorem commandAndErrors_pairs_witness:
  "[replEvent \<lparr>cmdUID = ''u'', cmdTimestamp = 1, Command = ''(print x)''\<rparr>,
    errorEvent \<lparr>errUID = ''u'', errTimestamp = 2, Description = ''Variable x has no value''\<rparr>,
    replEvent \<lparr>cmdUID = ''u'', cmdTimestamp = 3, Command = ''(set x 1)''\<rparr>]
     \<in> sort_Slice (\<lambda>a b. getTimestamp a <s getTimestamp b)
       [errorEvent \<lparr>errUID = ''u'', errTimestamp = 2, Description = ''Variable x has no value''\<rparr>,
        replEvent \<lparr>cmdUID = ''u'', cmdTimestamp = 1, Command = ''(print x)''\<rparr>,
        replEvent \<lparr>cmdUID = ''u'', cmdTimestamp = 3, Command = ''(set x 1)''\<rparr>]
   \<and> commandAndErrors
       \<lparr>uid = ''u'', events =
          [replEvent \<lparr>cmdUID = ''u'', cmdTimestamp = 1, Command = ''(print x)''\<rparr>,
           errorEvent \<lparr>errUID = ''u'', errTimestamp = 2,
                       Description = ''Variable x has no value''\<rparr>,
           replEvent \<lparr>cmdUID = ''u'', cmdTimestamp = 3, Command = ''(set x 1)''\<rparr>]\<rparr>
       = Inr [\<lparr>cmd = \<lparr>cmdUID = ''u'', cmdTimestamp = 1, Command = ''(print x)''\<rparr>,
               err = Some \<lparr>errUID = ''u'', errTimestamp = 2,
                            Description = ''Variable x has no value''\<rparr>\<rparr>]
   \<and> commandAndErrors_loop
        [replEvent \<lparr>cmdUID = ''u'', cmdTimestamp = 1, Command = ''(print x)''\<rparr>,
         editorEvent \<lparr>edUID = ''u'', edTimestamp = 2, Content = ''(print 1)''\<rparr>] ([], None)
       = Inr ([], Some \<lparr>cmdUID = ''u'', cmdTimestamp = 1, Command = ''(print x)''\<rparr>)
   \<and> list_all isEditorEvent [editorEvent \<lparr>edUID = ''u'', edTimestamp = 4, Content = ''(print 2)''\<rparr>]
   \<and> commandAndErrors
       \<lparr>uid = ''u'', events =
          [replEvent \<lparr>cmdUID = ''u'', cmdTimestamp = 1, Command = ''(print x)''\<rparr>,
           editorEvent \<lparr>edUID = ''u'', edTimestamp = 2, Content = ''(print 1)''\<rparr>,
           replEvent \<lparr>cmdUID = ''u'', cmdTimestamp = 3, Command = ''(set x 1)''\<rparr>,
           editorEvent \<lparr>edUID = ''u'', edTimestamp = 4, Content = ''(print 2)''\<rparr>]\<rparr>
       = Inr [\<lparr>cmd = \<lparr>cmdUID = ''u'', cmdTimestamp = 1, Command = ''(print x)''\<rparr>,
               err = None\<rparr>]"
proof -
  let ?cmdA = "\<lparr>cmdUID = ''u'', cmdTimestamp = 1, Command = ''(print x)''\<rparr>"
  let ?cmdB = "\<lparr>cmdUID = ''u'', cmdTimestamp = 3, Command = ''(set x 1)''\<rparr>"
  let ?errA = "\<lparr>errUID = ''u'', errTimestamp = 2, Description = ''Variable x has no value''\<rparr>"
  let ?pre = "[replEvent ?cmdA,
               editorEvent \<lparr>edUID = ''u'', edTimestamp = 2, Content = ''(print 1)''\<rparr>]"
  let ?eds = "[editorEvent \<lparr>edUID = ''u'', edTimestamp = 4, Content = ''(print 2)''\<rparr>]"
  have sorted: "[replEvent ?cmdA, errorEvent ?errA, replEvent ?cmdB]
     \<in> sort_Slice (\<lambda>a b. getTimestamp a <s getTimestamp b)
          [errorEvent ?errA, replEvent ?cmdA, replEvent ?cmdB]"
    by (simp add: sort_Slice_getTimestamp)
  have pre: "commandAndErrors_loop ?pre ([], None) = Inr ([], Some ?cmdA)"
    by simp
  have eds: "list_all isEditorEvent ?eds"
    by simp
  from sorted pre eds
    commandAndErrors_pairs [where cmdA = ?cmdA and errA = ?errA and cmdB = ?cmdB
      and evs = "[replEvent ?cmdA, errorEvent ?errA, replEvent ?cmdB]"
      and u = "''u''" and pre = ?pre and out = "[]" and pending = "Some ?cmdA"
      and eds = ?eds and c = ?cmdB]
  show ?thesis
    by simp
qed

section \<open>Properties of newSession\<close>

lemma newSession_available:
  "available c \<Longrightarrow>
   newSession c u =
     (\<lambda>evs. Inr \<lparr>uid = u, events = evs\<rparr>) `
        sort_Slice (\<lambda>a b. getTimestamp a <s getTimestamp b) (fetched c u)"
  by (simp add: newSession_def available_def fetched_def GetAll_ErrorInstance_def
      GetAll_REPLCommand_def GetAll_EditorContent_def)

text \<open>
  C3, as the code has it. When the store answers, newSession returns a session for the
  user; every session it can return holds exactly the fetched events (the user's
  errors, commands and editor saves), in ascending order of timestamp. When the
  timestamps of the fetched events are pairwise distinct, there is one such session:
  the fetched events sorted by timestamp. Nothing is promised on the relative order of
  events with equal timestamps.
\<close>

theorem newSession_sorted_by_timestamp:
  assumes "available c"
  shows "(\<exists>sess. Inr sess \<in> newSession c u)
     \<and> (\<forall>r \<in> newSession c u. \<exists>sess. r = Inr sess \<and> uid sess = u
            \<and> mset (events sess) = mset (fetched c u)
            \<and> sorted (map (\<lambda>e. sint (getTimestamp e)) (events sess)))
     \<and> (distinct (map getTimestamp (fetched c u)) \<longrightarrow>
          newSession c u =
            {Inr \<lparr>uid = u, events = sort_key (\<lambda>e. sint (getTimestamp e)) (fetched c u)\<rparr>})"
proof (intro conjI ballI impI)
  show "\<exists>sess. Inr sess \<in> newSession c u"
    using sort_Slice_stable_member [of "fetched c u"]
    by (auto simp: newSession_available [OF assms])
next
  fix r assume "r \<in> newSession c u"
  then obtain evs where r: "r = Inr \<lparr>uid = u, events = evs\<rparr>"
    and evs: "evs \<in> sort_Slice (\<lambda>a b. getTimestamp a <s getTimestamp b) (fetched c u)"
    by (auto simp: newSession_available [OF assms])
  from evs have "mset evs = mset (fetched c u)"
    and "sorted (map (\<lambda>e. sint (getTimestamp e)) evs)"
    by (simp_all add: sort_Slice_getTimestamp)
  with r show "\<exists>sess. r = Inr sess \<and> uid sess = u
            \<and> mset (events sess) = mset (fetched c u)
            \<and> sorted (map (\<lambda>e. sint (getTimestamp e)) (events sess))"
    by simp
next
  assume "distinct (map getTimestamp (fetched c u))"
  then show "newSession c u =
            {Inr \<lparr>uid = u, events = sort_key (\<lambda>e. sint (getTimestamp e)) (fetched c u)\<rparr>}"
    by (simp add: newSession_available [OF assms] sort_Slice_distinct_timestamps)
qed

text \<open>
  The theorem at the store of two users and user \<open>u\<close>, whose events have the distinct
  timestamps 2, 1 and 3 in the order of the fetches.
\<close>

theorem newSession_sorted_by_timestamp_witness:
  "available store_two_users
   \<and> distinct (map getTimestamp (fetched store_two_users ''u''))
   \<and> newSession store_two_users ''u'' =
       {Inr \<lparr>uid = ''u'', events =
          [replEvent \<lparr>cmdUID = ''u'', cmdTimestamp = 1, Command = ''(print x)''\<rparr>,
           errorEvent \<lparr>errUID = ''u'', errTimestamp = 2,
                       Description = ''Variable x has no value''\<rparr>,
           replEvent \<lparr>cmdUID = ''u'', cmdTimestamp = 3, Command = ''(set x 1)''\<rparr>]\<rparr>}"
proof -
  have a: "available store_two_users"
    by (simp add: available_def store_two_users_def)
  have f: "fetched store_two_users ''u'' =
        [errorEvent \<lparr>errUID = ''u'', errTimestamp = 2,
                     Description = ''Variable x has no value''\<rparr>,
         replEvent \<lparr>cmdUID = ''u'', cmdTimestamp = 1, Command = ''(print x)''\<rparr>,
         replEvent \<lparr>cmdUID = ''u'', cmdTimestamp = 3, Command = ''(set x 1)''\<rparr>]"
    by (simp add: fetched_def store_two_users_def)
  have d: "distinct (map getTimestamp (fetched store_two_users ''u''))"
    by (simp add: f)
  from newSession_sorted_by_timestamp [OF a, of "''u''"] d
  have "newSession store_two_users ''u'' =
          {Inr \<lparr>uid = ''u'',
                events = sort_key (\<lambda>e. sint (getTimestamp e)) (fetched store_two_users ''u'')\<rparr>}"
    by blast
  then show ?thesis
    using a d by (simp add: f)
qed

text \<open>
  C3 as stated fails on the promise of stability. A user has the errors \<open>p\<close> and \<open>q\<close>,
  both at time 2 and fetched in this order, four commands at time 3 and an editor save
  at time 1. The session in which \<open>q\<close> comes before \<open>p\<close> is among the results of
  newSession: it holds the fetched events in ascending order of timestamp, which is all
  that \<^verbatim>\<open>sort.Slice\<close> promises.
\<close>

theorem newSession_not_stable:
  "fetched
     \<lparr>entitiesError =
        [\<lparr>errUID = ''u'', errTimestamp = 2, Description = ''p''\<rparr>,
         \<lparr>errUID = ''u'', errTimestamp = 2, Description = ''q''\<rparr>],
      entitiesREPLCommand =
        [\<lparr>cmdUID = ''u'', cmdTimestamp = 3, Command = ''a''\<rparr>,
         \<lparr>cmdUID = ''u'', cmdTimestamp = 3, Command = ''b''\<rparr>,
         \<lparr>cmdUID = ''u'', cmdTimestamp = 3, Command = ''c''\<rparr>,
         \<lparr>cmdUID = ''u'', cmdTimestamp = 3, Command = ''d''\<rparr>],
      entitiesEditorContent =
        [\<lparr>edUID = ''u'', edTimestamp = 1, Content = ''r''\<rparr>],
      failure = (\<lambda>k. None)\<rparr> ''u''
   = [errorEvent \<lparr>errUID = ''u'', errTimestamp = 2, Description = ''p''\<rparr>,
      errorEvent \<lparr>errUID = ''u'', errTimestamp = 2, Description = ''q''\<rparr>,
      replEvent \<lparr>cmdUID = ''u'', cmdTimestamp = 3, Command = ''a''\<rparr>,
      replEvent \<lparr>cmdUID = ''u'', cmdTimestamp = 3, Command = ''b''\<rparr>,
      replEvent \<lparr>cmdUID = ''u'', cmdTimestamp = 3, Command = ''c''\<rparr>,
      replEvent \<lparr>cmdUID = ''u'', cmdTimestamp = 3, Command = ''d''\<rparr>,
      editorEvent \<lparr>edUID = ''u'', edTimestamp = 1, Content = ''r''\<rparr>]
   \<and> Inr \<lparr>uid = ''u'', events =
      [editorEvent \<lparr>edUID = ''u'', edTimestamp = 1, Content = ''r''\<rparr>,
       errorEvent \<lparr>errUID = ''u'', errTimestamp = 2, Description = ''q''\<rparr>,
       errorEvent \<lparr>errUID = ''u'', errTimestamp = 2, Description = ''p''\<rparr>,
       replEvent \<lparr>cmdUID = ''u'', cmdTimestamp = 3, Command = ''a''\<rparr>,
       replEvent \<lparr>cmdUID = ''u'', cmdTimestamp = 3, Command = ''b''\<rparr>,
       replEvent \<lparr>cmdUID = ''u'', cmdTimestamp = 3, Command = ''c''\<rparr>,
       replEvent \<lparr>cmdUID = ''u'', cmdTimestamp = 3, Command = ''d''\<rparr>]\<rparr>
    \<in> newSession
        \<lparr>entitiesError =
           [\<lparr>errUID = ''u'', errTimestamp = 2, Description = ''p''\<rparr>,
            \<lparr>errUID = ''u'', errTimestamp = 2, Description = ''q''\<rparr>],
         entitiesREPLCommand =
           [\<lparr>cmdUID = ''u'', cmdTimestamp = 3, Command = ''a''\<rparr>,
            \<lparr>cmdUID = ''u'', cmdTimestamp = 3, Command = ''b''\<rparr>,
            \<lparr>cmdUID = ''u'', cmdTimestamp = 3, Command = ''c''\<rparr>,
            \<lparr>cmdUID = ''u'', cmdTimestamp = 3, Command = ''d''\<rparr>],
         entitiesEditorContent =
           [\<lparr>edUID = ''u'', edTimestamp = 1, Content = ''r''\<rparr>],
         failure = (\<lambda>k. None)\<rparr> ''u''"
  by (simp add: fetched_def newSession_def GetAll_ErrorInstance_def GetAll_REPLCommand_def
      GetAll_EditorContent_def sort_Slice_getTimestamp image_iff)

text \<open>
  C10. When the three fetches for a user return no record of any kind, newSession
  returns the session without events for that user, and nothing else (no error); and
  commandAndErrors on that session returns the empty sequence of pairs.
\<close>

theorem newSession_no_records:
  assumes "GetAll_ErrorInstance c (Some u) = Inr []"
    and "GetAll_REPLCommand c (Some u) = Inr []"
    and "GetAll_EditorContent c (Some u) = Inr []"
  shows "newSession c u = {Inr \<lparr>uid = u, events = []\<rparr>}
     \<and> commandAndErrors \<lparr>uid = u, events = []\<rparr> = Inr []"
proof
  have "sort_Slice (\<lambda>a b. getTimestamp a <s getTimestamp b) [] = {[]}"
    by (auto simp: sort_Slice_def)
  with assms show "newSession c u = {Inr \<lparr>uid = u, events = []\<rparr>}"
    by (simp add: newSession_def)
  show "commandAndErrors \<lparr>uid = u, events = []\<rparr> = Inr []"
    by (simp add: commandAndErrors_def)
qed

text \<open>The theorem at the store of two users and a third user \<open>w\<close>, who has no record.\<close>

theorem newSession_no_records_witness:
  "GetAll_ErrorInstance store_two_users (Some ''w'') = Inr []
   \<and> GetAll_REPLCommand store_two_users (Some ''w'') = Inr []
   \<and> GetAll_EditorContent store_two_users (Some ''w'') = Inr []
   \<and> newSession store_two_users ''w'' = {Inr \<lparr>uid = ''w'', events = []\<rparr>}
   \<and> commandAndErrors \<lparr>uid = ''w'', events = []\<rparr> = Inr []"
proof -
  have e: "GetAll_ErrorInstance store_two_users (Some ''w'') = Inr []"
    by (simp add: GetAll_ErrorInstance_def store_two_users_def)
  have r: "GetAll_REPLCommand store_two_users (Some ''w'') = Inr []"
    by (simp add: GetAll_REPLCommand_def store_two_users_def)
  have d: "GetAll_EditorContent store_two_users (Some ''w'') = Inr []"
    by (simp add: GetAll_EditorContent_def store_two_users_def)
  show ?thesis
    using e r d newSession_no_records [OF e r d] by simp
qed

section \<open>Properties of the pattern table\<close>

lemma errPatterns_entries_distinct: "distinct (map fst errPatterns_entries)"
  by (simp add: errPatterns_entries_def)

lemma range_map_of_iff:
  assumes "distinct (map fst es)"
  shows "ps \<in> range_map (map_of es) \<longleftrightarrow> distinct (map fst ps) \<and> set ps = set es"
  using assms by (auto simp: range_map_def map_of_inject_set)

lemma errPatterns_entries_range: "errPatterns_entries \<in> range_map errPatterns"
  by (simp add: errPatterns_def range_map_of_iff errPatterns_entries_distinct)

lemma rev_errPatterns_entries_range: "rev errPatterns_entries \<in> range_map errPatterns"
  by (simp add: errPatterns_def range_map_of_iff errPatterns_entries_distinct
      rev_map [symmetric])

lemma range_errPatterns_set:
  "ps \<in> range_map errPatterns \<Longrightarrow> set ps = set errPatterns_entries"
  by (simp add: errPatterns_def range_map_of_iff errPatterns_entries_distinct)

section \<open>Properties of classification\<close>

lemma errorTypeCount_inner_classify:
  "errorTypeCount_inner ps d m =
     (case classify ps d of None \<Rightarrow> m | Some name \<Rightarrow> increment m name)"
  by (induction ps) auto

lemma classify_None_iff:
  "classify ps d = None \<longleftrightarrow> \<not> list_ex (\<lambda>(name, pattern). MatchString pattern d) ps"
  by (induction ps) (auto split: if_splits)

lemma classify_first_match:
  "classify ps d = Some name \<longleftrightarrow>
     (\<exists>pre pattern post. ps = pre @ (name, pattern) # post \<and> MatchString pattern d
        \<and> (\<forall>(n, p) \<in> set pre. \<not> MatchString p d))"
proof (induction ps)
  case Nil
  then show ?case by simp
next
  case (Cons a ps)
  obtain n p where a: "a = (n, p)"
    by (cases a)
  show ?case
  proof (cases "MatchString p d")
    case True
    have "\<exists>pre pattern post. (n, p) # ps = pre @ (n, pattern) # post \<and> MatchString pattern d
        \<and> (\<forall>(n, p) \<in> set pre. \<not> MatchString p d)"
      using True by (intro exI [of _ "[]"] exI [of _ p] exI [of _ ps]) simp
    moreover have "name = n"
      if "(n, p) # ps = pre @ (name, pattern) # post"
        and "\<forall>(n, p) \<in> set pre. \<not> MatchString p d" for pre pattern post
      using that True by (cases pre) auto
    ultimately show ?thesis
      using True a by auto
  next
    case False
    have "(\<exists>pre pattern post. (n, p) # ps = pre @ (name, pattern) # post
             \<and> MatchString pattern d \<and> (\<forall>(n, p) \<in> set pre. \<not> MatchString p d))
       \<longleftrightarrow> (\<exists>pre pattern post. ps = pre @ (name, pattern) # post
             \<and> MatchString pattern d \<and> (\<forall>(n, p) \<in> set pre. \<not> MatchString p d))"
      (is "?L \<longleftrightarrow> ?R")
    proof
      assume ?L
      then obtain pre pattern post where
        eq: "(n, p) # ps = pre @ (name, pattern) # post" and m: "MatchString pattern d"
        and none: "\<forall>(n, p) \<in> set pre. \<not> MatchString p d"
        by blast
      from eq m False obtain pre' where "pre = (n, p) # pre'"
        by (cases pre) auto
      with eq m none show ?R
        by auto
    next
      assume ?R
      then obtain pre pattern post where
        "ps = pre @ (name, pattern) # post" and "MatchString pattern d"
        and "\<forall>(n, p) \<in> set pre. \<not> MatchString p d"
        by blast
      with False show ?L
        by (intro exI [of _ "(n, p) # pre"] exI [of _ pattern] exI [of _ post]) simp
    qed
    with Cons False a show ?thesis
      by simp
  qed
qed

lemma classify_Some_member:
  "classify ps d = Some name \<Longrightarrow> \<exists>pattern. (name, pattern) \<in> set ps \<and> MatchString pattern d"
  by (auto simp: classify_first_match)

lemma filter_at_most_one:
  "length (filter P xs) \<le> 1 \<Longrightarrow> x \<in> set xs \<Longrightarrow> y \<in> set xs \<Longrightarrow> P x \<Longrightarrow> P y \<Longrightarrow> x = y"
proof (induction xs)
  case Nil
  then show ?case by simp
next
  case (Cons a xs)
  show ?case
  proof (cases "P a")
    case True
    with Cons.prems have "filter P xs = []"
      by simp
    then have "\<forall>z \<in> set xs. \<not> P z"
      by (simp add: filter_empty_conv)
    with Cons.prems show ?thesis
      by auto
  next
    case False
    with Cons show ?thesis
      by auto
  qed
qed

lemma classify_order_independent:
  assumes ps: "ps \<in> range_map errPatterns" and ps': "ps' \<in> range_map errPatterns"
    and one: "length (filter (\<lambda>(name, pattern). MatchString pattern d) errPatterns_entries) \<le> 1"
  shows "classify ps' d = classify ps d"
proof (cases "classify ps d")
  case None
  then have "\<not> list_ex (\<lambda>(name, pattern). MatchString pattern d) ps'"
    using range_errPatterns_set [OF ps] range_errPatterns_set [OF ps']
    by (simp add: classify_None_iff list_ex_iff)
  then have "classify ps' d = None"
    by (simp add: classify_None_iff)
  with None show ?thesis
    by simp
next
  case (Some name)
  then obtain pattern where np: "(name, pattern) \<in> set errPatterns_entries"
    and m: "MatchString pattern d"
    using classify_Some_member range_errPatterns_set [OF ps] by blast
  then have "list_ex (\<lambda>(name, pattern). MatchString pattern d) ps'"
    using range_errPatterns_set [OF ps'] by (auto simp: list_ex_iff)
  then obtain name' where c': "classify ps' d = Some name'"
    by (cases "classify ps' d") (simp_all add: classify_None_iff)
  then obtain pattern' where np': "(name', pattern') \<in> set errPatterns_entries"
    and m': "MatchString pattern' d"
    using classify_Some_member range_errPatterns_set [OF ps'] by blast
  from filter_at_most_one [OF one np np'] m m' have "name = name'"
    by simp
  with Some c' show ?thesis
    by simp
qed

section \<open>Properties of errorTypeCount\<close>

lemma dom_increment: "dom (increment m k) = insert k (dom m)"
  by (simp add: increment_def)

lemma totalCount_increment:
  assumes "finite (dom m)"
  shows "totalCount (increment m k) = totalCount m + 1"
proof (cases "k \<in> dom m")
  case True
  then obtain n where n: "m k = Some n"
    by auto
  have same: "(\<Sum>x \<in> dom m - {k}. case increment m k x of None \<Rightarrow> 0 | Some v \<Rightarrow> v)
      = (\<Sum>x \<in> dom m - {k}. case m x of None \<Rightarrow> 0 | Some v \<Rightarrow> v)"
    by (rule sum.cong) (simp_all add: increment_def)
  have "totalCount (increment m k)
      = (\<Sum>x \<in> dom m. case increment m k x of None \<Rightarrow> 0 | Some v \<Rightarrow> v)"
    using True by (simp add: totalCount_def dom_increment insert_absorb)
  also have "\<dots> = (n + 1)
      + (\<Sum>x \<in> dom m - {k}. case increment m k x of None \<Rightarrow> 0 | Some v \<Rightarrow> v)"
    using assms True n by (simp add: sum.remove [of _ k] increment_def)
  also have "\<dots> = (\<Sum>x \<in> dom m. case m x of None \<Rightarrow> 0 | Some v \<Rightarrow> v) + 1"
    using assms True n by (simp add: same sum.remove [of _ k])
  finally show ?thesis
    by (simp add: totalCount_def)
next
  case False
  then have none: "m k = None"
    by auto
  have same: "(\<Sum>x \<in> dom m. case increment m k x of None \<Rightarrow> 0 | Some v \<Rightarrow> v)
      = (\<Sum>x \<in> dom m. case m x of None \<Rightarrow> 0 | Some v \<Rightarrow> v)"
    using False by (intro sum.cong) (auto simp: increment_def)
  have "totalCount (increment m k)
      = (\<Sum>x \<in> insert k (dom m). case increment m k x of None \<Rightarrow> 0 | Some v \<Rightarrow> v)"
    by (simp add: totalCount_def dom_increment)
  also have "\<dots> = 1 + (\<Sum>x \<in> dom m. case increment m k x of None \<Rightarrow> 0 | Some v \<Rightarrow> v)"
    using assms False none by (simp add: increment_def)
  finally show ?thesis
    by (simp add: same totalCount_def)
qed

lemma matchesSomePattern_range:
  "ps \<in> range_map errPatterns \<Longrightarrow>
   list_ex (\<lambda>(name, pattern). MatchString pattern d) ps = matchesSomePattern d"
  by (simp add: matchesSomePattern_def list_ex_iff range_errPatterns_set)

text \<open>What one pass of the inner loop does to the histogram.\<close>

lemma errorTypeCount_inner_unmatched:
  "ps \<in> range_map errPatterns \<Longrightarrow> \<not> matchesSomePattern d \<Longrightarrow>
   errorTypeCount_inner ps d m = m"
  using classify_None_iff [of ps d]
  by (simp add: errorTypeCount_inner_classify matchesSomePattern_range)

lemma errorTypeCount_inner_matched:
  assumes "ps \<in> range_map errPatterns" and "matchesSomePattern d"
  shows "\<exists>name. name \<in> dom errPatterns \<and> errorTypeCount_inner ps d m = increment m name"
proof -
  from assms obtain name where c: "classify ps d = Some name"
    using classify_None_iff [of ps d]
    by (cases "classify ps d") (simp_all add: matchesSomePattern_range)
  then obtain pattern where "(name, pattern) \<in> set errPatterns_entries"
    using classify_Some_member range_errPatterns_set [OF assms(1)] by blast
  then have "name \<in> dom errPatterns"
    by (simp add: errPatterns_def dom_map_of_conv_image_fst rev_image_eqI)
  with c show ?thesis
    by (auto simp: errorTypeCount_inner_classify)
qed

lemma errorTypeCount_inner_total:
  assumes "ps \<in> range_map errPatterns" and "finite (dom m)"
  shows "finite (dom (errorTypeCount_inner ps d m))
     \<and> totalCount (errorTypeCount_inner ps d m)
         = totalCount m + (if matchesSomePattern d then 1 else 0)"
proof (cases "matchesSomePattern d")
  case True
  from errorTypeCount_inner_matched [OF assms(1) True, of m] assms(2) True
  show ?thesis
    by (auto simp: totalCount_increment dom_increment)
next
  case False
  with assms show ?thesis
    by (simp add: errorTypeCount_inner_unmatched)
qed

text \<open>The invariant of the outer loop, by induction on its runs.\<close>

lemma errorTypeCount_loop_total:
  "errorTypeCount_loop es m m' \<Longrightarrow> finite (dom m) \<Longrightarrow>
   finite (dom m')
   \<and> totalCount m'
       = totalCount m + int (length (filter (\<lambda>e. matchesSomePattern (Description e)) es))"
proof (induction rule: errorTypeCount_loop.induct)
  case (loop_done m)
  then show ?case by simp
next
  case (loop_step ps es e m m')
  from errorTypeCount_inner_total [OF loop_step.hyps(1) loop_step.prems, of "Description e"]
    loop_step.IH
  show ?case
    by simp
qed

lemma errorTypeCount_loop_runs: "\<exists>m'. errorTypeCount_loop es m m'"
proof (induction es arbitrary: m)
  case Nil
  show ?case
    by (blast intro: errorTypeCount_loop.loop_done)
next
  case (Cons e es)
  from Cons [of "errorTypeCount_inner errPatterns_entries (Description e) m"]
  show ?case
    by (blast intro: errorTypeCount_loop.loop_step errPatterns_entries_range)
qed

text \<open>
  C5. An error whose description no pattern matches leaves the histogram as it is; an
  error whose description some pattern matches adds one to the bucket of one label of
  the table, and changes no other bucket. When the fetch succeeds, errorTypeCount
  returns a histogram, and in every histogram it can return the sum of all bucket counts
  is the number of fetched error records whose description some pattern matches.
\<close>

theorem errorTypeCount_counts_matched_only:
  assumes "failure c ErrorInstanceKind = None"
  shows "(\<forall>ps \<in> range_map errPatterns.
            (\<not> matchesSomePattern d \<longrightarrow> errorTypeCount_inner ps d m = m)
          \<and> (matchesSomePattern d \<longrightarrow>
               (\<exists>name. name \<in> dom errPatterns
                  \<and> errorTypeCount_inner ps d m
                      = m(name \<mapsto> (case m name of None \<Rightarrow> 0 | Some n \<Rightarrow> n) + 1))))
     \<and> (\<exists>matchCnt. Inr matchCnt \<in> errorTypeCount c)
     \<and> (\<forall>r \<in> errorTypeCount c. \<exists>matchCnt. r = Inr matchCnt
           \<and> totalCount matchCnt
               = int (length (filter (\<lambda>e. matchesSomePattern (Description e))
                                (entitiesError c))))"
proof (intro conjI ballI impI)
  fix ps assume "ps \<in> range_map errPatterns" and "\<not> matchesSomePattern d"
  then show "errorTypeCount_inner ps d m = m"
    by (rule errorTypeCount_inner_unmatched)
next
  fix ps assume "ps \<in> range_map errPatterns" and "matchesSomePattern d"
  then show "\<exists>name. name \<in> dom errPatterns
     \<and> errorTypeCount_inner ps d m = m(name \<mapsto> (case m name of None \<Rightarrow> 0 | Some n \<Rightarrow> n) + 1)"
    using errorTypeCount_inner_matched [of ps d m] by (simp add: increment_def)
next
  show "\<exists>matchCnt. Inr matchCnt \<in> errorTypeCount c"
    using assms errorTypeCount_loop_runs [of "entitiesError c" Map.empty]
    by (auto simp: errorTypeCount_def GetAll_ErrorInstance_def)
next
  fix r assume "r \<in> errorTypeCount c"
  with assms obtain matchCnt where r: "r = Inr matchCnt"
    and run: "errorTypeCount_loop (entitiesError c) Map.empty matchCnt"
    by (auto simp: errorTypeCount_def GetAll_ErrorInstance_def)
  from errorTypeCount_loop_total [OF run]
  have "totalCount matchCnt
      = int (length (filter (\<lambda>e. matchesSomePattern (Description e)) (entitiesError c)))"
    by (simp add: totalCount_def)
  with r show "\<exists>matchCnt. r = Inr matchCnt
     \<and> totalCount matchCnt
         = int (length (filter (\<lambda>e. matchesSomePattern (Description e)) (entitiesError c)))"
    by simp
qed

inductive_simps errorTypeCount_loop_Nil: "errorTypeCount_loop [] m m'"

inductive_simps errorTypeCount_loop_Cons: "errorTypeCount_loop (e # es) m m'"

text \<open>
  The theorem at the store of three errors, the visiting order of the source text and
  the description that no pattern matches: the histogram has the two buckets of the
  two matched errors, and its total is 2.
\<close>

theorem errorTypeCount_counts_matched_only_witness:
  "failure store_three_errors ErrorInstanceKind = None
   \<and> errPatterns_entries \<in> range_map errPatterns
   \<and> \<not> matchesSomePattern ''a completely unrelated failure''
   \<and> errorTypeCount_inner errPatterns_entries ''a completely unrelated failure''
        [''TooManyArguments'' \<mapsto> 1] = [''TooManyArguments'' \<mapsto> 1]
   \<and> Inr [''TooManyArguments'' \<mapsto> 1, ''VariableHasNoValue'' \<mapsto> 1]
        \<in> errorTypeCount store_three_errors
   \<and> totalCount [''TooManyArguments'' \<mapsto> 1, ''VariableHasNoValue'' \<mapsto> 1] = 2"
proof -
  let ?m = "[''TooManyArguments'' \<mapsto> 1::int, ''VariableHasNoValue'' \<mapsto> 1]"
  have f: "failure store_three_errors ErrorInstanceKind = None"
    by (simp add: store_three_errors_def)
  have u: "\<not> matchesSomePattern ''a completely unrelated failure''"
    by (simp add: matchesSomePattern_def errPatterns_entries_def MatchString_def)
  have i1: "errorTypeCount_inner errPatterns_entries ''Too many arguments'' Map.empty
      = [''TooManyArguments'' \<mapsto> 1]"
    by (simp add: errPatterns_entries_def MatchString_def increment_def)
  have i2: "errorTypeCount_inner errPatterns_entries ''a completely unrelated failure''
      [''TooManyArguments'' \<mapsto> 1] = [''TooManyArguments'' \<mapsto> 1]"
    by (simp add: errPatterns_entries_def MatchString_def increment_def)
  have i3: "errorTypeCount_inner errPatterns_entries ''Variable x has no value''
      [''TooManyArguments'' \<mapsto> 1] = ?m"
    by (simp add: errPatterns_entries_def MatchString_def increment_def)
  have l3: "errorTypeCount_loop
      [\<lparr>errUID = ''u'', errTimestamp = 3, Description = ''Variable x has no value''\<rparr>]
      [''TooManyArguments'' \<mapsto> 1] ?m"
    by (rule errorTypeCount_loop.loop_step [OF errPatterns_entries_range])
      (simp add: i3 errorTypeCount_loop.loop_done)
  have l2: "errorTypeCount_loop
      [\<lparr>errUID = ''u'', errTimestamp = 2, Description = ''a completely unrelated failure''\<rparr>,
       \<lparr>errUID = ''u'', errTimestamp = 3, Description = ''Variable x has no value''\<rparr>]
      [''TooManyArguments'' \<mapsto> 1] ?m"
    by (rule errorTypeCount_loop.loop_step [OF errPatterns_entries_range])
      (simp add: i2 l3)
  have l1: "errorTypeCount_loop
      [\<lparr>errUID = ''u'', errTimestamp = 1, Description = ''Too many arguments''\<rparr>,
       \<lparr>errUID = ''u'', errTimestamp = 2, Description = ''a completely unrelated failure''\<rparr>,
       \<lparr>errUID = ''u'', errTimestamp = 3, Description = ''Variable x has no value''\<rparr>]
      Map.empty ?m"
    by (rule errorTypeCount_loop.loop_step [OF errPatterns_entries_range])
      (simp add: i1 l2)
  have run: "Inr ?m \<in> errorTypeCount store_three_errors"
    using l1
    by (simp add: errorTypeCount_def GetAll_ErrorInstance_def store_three_errors_def)
  have n: "length (filter (\<lambda>e. matchesSomePattern (Description e))
      (entitiesError store_three_errors)) = 2"
    by (simp add: store_three_errors_def matchesSomePattern_def errPatterns_entries_def
        MatchString_def)
  from errorTypeCount_counts_matched_only [OF f,
      of "''a completely unrelated failure''" "[''TooManyArguments'' \<mapsto> 1]"]
    run n
  have "totalCount ?m = 2"
    by fastforce
  with f u i2 run errPatterns_entries_range show ?thesis
    by blast
qed

text \<open>
  C7. The claim: a description of the shape
  \<^verbatim>\<open>Argument <name> must be of type <type>, got <type2>\<close> is counted under the label
  \<^verbatim>\<open>ArgumentMustBeOfType\<close>. The key of that pattern in the table is spelt
  \<^verbatim>\<open>ArugmentMustBeOfType\<close>: on a store with one such error the only histogram that
  errorTypeCount returns has the count 1 under the misspelt key, and no bucket
  \<^verbatim>\<open>ArgumentMustBeOfType\<close>.
\<close>

theorem errorTypeCount_misspelt_key:
  "errorTypeCount
     \<lparr>entitiesError =
        [\<lparr>errUID = ''u'', errTimestamp = 1,
          Description = ''Argument x must be of type number, got string''\<rparr>],
      entitiesREPLCommand = [],
      entitiesEditorContent = [],
      failure = (\<lambda>k. None)\<rparr>
   = {Inr [''ArugmentMustBeOfType'' \<mapsto> 1]}
   \<and> [''ArugmentMustBeOfType'' \<mapsto> 1::int] ''ArgumentMustBeOfType'' = None"
proof
  let ?d = "''Argument x must be of type number, got string''"
  have one: "length (filter (\<lambda>(name, pattern). MatchString pattern ?d) errPatterns_entries) \<le> 1"
    by (simp add: errPatterns_entries_def MatchString_def)
  have src: "classify errPatterns_entries ?d = Some ''ArugmentMustBeOfType''"
    by (simp add: errPatterns_entries_def MatchString_def)
  have every: "errorTypeCount_inner ps ?d Map.empty = [''ArugmentMustBeOfType'' \<mapsto> 1]"
    if "ps \<in> range_map errPatterns" for ps
    using classify_order_independent [OF errPatterns_entries_range that one] src
    by (simp add: errorTypeCount_inner_classify increment_def)
  have "{m. errorTypeCount_loop
             [\<lparr>errUID = ''u'', errTimestamp = 1, Description = ?d\<rparr>] Map.empty m}
      = {[''ArugmentMustBeOfType'' \<mapsto> 1]}"
    using every errPatterns_entries_range
    by (auto simp: errorTypeCount_loop_Nil errorTypeCount_loop_Cons)
  then show "errorTypeCount
     \<lparr>entitiesError = [\<lparr>errUID = ''u'', errTimestamp = 1, Description = ?d\<rparr>],
      entitiesREPLCommand = [],
      entitiesEditorContent = [],
      failure = (\<lambda>k. None)\<rparr>
   = {Inr [''ArugmentMustBeOfType'' \<mapsto> 1]}"
    by (simp add: errorTypeCount_def GetAll_ErrorInstance_def)
  show "[''ArugmentMustBeOfType'' \<mapsto> 1::int] ''ArgumentMustBeOfType'' = None"
    by simp
qed

section \<open>Order of the pattern table in errorTypeCount\<close>

lemma errorTypeCount_inner_first_match:
  assumes "ps = pre @ (name, pattern) # post" and "MatchString pattern d"
    and "\<forall>(n, p) \<in> set pre. \<not> MatchString p d"
  shows "errorTypeCount_inner ps d m = increment m name"
proof -
  from assms have "classify ps d = Some name"
    unfolding classify_first_match by blast
  then show ?thesis
    by (simp add: errorTypeCount_inner_classify)
qed

lemma errorTypeCount_inner_order_independent:
  assumes "ps \<in> range_map errPatterns" and "ps' \<in> range_map errPatterns"
    and "length (filter (\<lambda>(name, pattern). MatchString pattern d) errPatterns_entries) \<le> 1"
  shows "errorTypeCount_inner ps' d m = errorTypeCount_inner ps d m"
  using classify_order_independent [OF assms]
  by (simp add: errorTypeCount_inner_classify)

text \<open>
  When at most one pattern matches each description, the outer loop has one result:
  the one along the order of the source text.
\<close>

lemma errorTypeCount_loop_deterministic:
  assumes "\<forall>e \<in> set es.
     length (filter (\<lambda>(name, pattern). MatchString pattern (Description e))
               errPatterns_entries) \<le> 1"
  shows "errorTypeCount_loop es m m' \<longleftrightarrow>
     m' = foldl (\<lambda>m e. errorTypeCount_inner errPatterns_entries (Description e) m) m es"
  using assms
proof (induction es arbitrary: m)
  case Nil
  then show ?case
    by (auto simp: errorTypeCount_loop_Nil)
next
  case (Cons e es)
  have same: "errorTypeCount_inner ps (Description e) m
      = errorTypeCount_inner errPatterns_entries (Description e) m"
    if "ps \<in> range_map errPatterns" for ps
    using errorTypeCount_inner_order_independent [OF errPatterns_entries_range that]
      Cons.prems by simp
  have "errorTypeCount_loop (e # es) m m' \<longleftrightarrow>
      (\<exists>ps. ps \<in> range_map errPatterns
         \<and> errorTypeCount_loop es (errorTypeCount_inner ps (Description e) m) m')"
    by (auto simp: errorTypeCount_loop_Cons)
  also have "\<dots> \<longleftrightarrow>
      errorTypeCount_loop es (errorTypeCount_inner errPatterns_entries (Description e) m) m'"
    using same errPatterns_entries_range by metis
  also have "\<dots> \<longleftrightarrow>
      m' = foldl (\<lambda>m e. errorTypeCount_inner errPatterns_entries (Description e) m)
             (errorTypeCount_inner errPatterns_entries (Description e) m) es"
    using Cons.IH Cons.prems by simp
  finally show ?case
    by simp
qed

text \<open>
  C1, as the code has it. The inner loop of errorTypeCount is first-match-wins along
  the order in which this execution of the \<^verbatim>\<open>range\<close> over \<^verbatim>\<open>errPatterns\<close> visits the
  entries: when the entry of \<open>name\<close> matches and no entry visited before it does, the
  loop adds one to the bucket \<open>name\<close> and to no other. That order is not fixed. For a
  description that at most one pattern of the table matches, the loop has the same
  effect along any two visiting orders; and when this holds of every fetched record,
  errorTypeCount has one result, the same in every run.
\<close>

theorem errorTypeCount_first_match_in_visiting_order:
  assumes "ps \<in> range_map errPatterns"
  shows "(ps = pre @ (name, pattern) # post \<and> MatchString pattern d
            \<and> (\<forall>(n, p) \<in> set pre. \<not> MatchString p d)
          \<longrightarrow> errorTypeCount_inner ps d m
                = m(name \<mapsto> (case m name of None \<Rightarrow> 0 | Some n \<Rightarrow> n) + 1))
     \<and> (ps' \<in> range_map errPatterns
          \<and> length (filter (\<lambda>(name, pattern). MatchString pattern d) errPatterns_entries) \<le> 1
        \<longrightarrow> errorTypeCount_inner ps' d m = errorTypeCount_inner ps d m)
     \<and> (failure c ErrorInstanceKind = None
          \<and> (\<forall>e \<in> set (entitiesError c).
                length (filter (\<lambda>(name, pattern). MatchString pattern (Description e))
                          errPatterns_entries) \<le> 1)
        \<longrightarrow> errorTypeCount c =
              {Inr (foldl (\<lambda>m e. errorTypeCount_inner errPatterns_entries (Description e) m)
                      Map.empty (entitiesError c))})"
proof (intro conjI impI)
  assume a: "ps = pre @ (name, pattern) # post \<and> MatchString pattern d
            \<and> (\<forall>(n, p) \<in> set pre. \<not> MatchString p d)"
  from a have p1: "ps = pre @ (name, pattern) # post"
    by (rule conjunct1)
  from a have p2: "MatchString pattern d"
    by (rule conjunct1 [OF conjunct2])
  from a have p3: "\<forall>(n, p) \<in> set pre. \<not> MatchString p d"
    by (rule conjunct2 [OF conjunct2])
  from errorTypeCount_inner_first_match [OF p1 p2 p3]
  show "errorTypeCount_inner ps d m
      = m(name \<mapsto> (case m name of None \<Rightarrow> 0 | Some n \<Rightarrow> n) + 1)"
    by (simp only: increment_def)
next
  assume a: "ps' \<in> range_map errPatterns
          \<and> length (filter (\<lambda>(name, pattern). MatchString pattern d) errPatterns_entries) \<le> 1"
  show "errorTypeCount_inner ps' d m = errorTypeCount_inner ps d m"
    by (rule errorTypeCount_inner_order_independent [OF assms conjunct1 [OF a] conjunct2 [OF a]])
next
  assume a: "failure c ErrorInstanceKind = None
          \<and> (\<forall>e \<in> set (entitiesError c).
                length (filter (\<lambda>(name, pattern). MatchString pattern (Description e))
                          errPatterns_entries) \<le> 1)"
  have "{m'. errorTypeCount_loop (entitiesError c) Map.empty m'}
      = {foldl (\<lambda>m e. errorTypeCount_inner errPatterns_entries (Description e) m)
           Map.empty (entitiesError c)}"
    by (simp only: errorTypeCount_loop_deterministic [OF conjunct2 [OF a]] singleton_conv)
  moreover have "errorTypeCount c
      = Inr ` {m'. errorTypeCount_loop (entitiesError c) Map.empty m'}"
    using conjunct1 [OF a] by (simp add: errorTypeCount_def GetAll_ErrorInstance_def)
  ultimately show "errorTypeCount c =
      {Inr (foldl (\<lambda>m e. errorTypeCount_inner errPatterns_entries (Description e) m)
              Map.empty (entitiesError c))}"
    by (simp only: image_insert image_empty)
qed

text \<open>
  The theorem at the order of the source text, where the tenth entry is the first to
  match the description \<^verbatim>\<open>Too many arguments\<close>, at the reverse order, and at the store
  of three errors, each of which at most one pattern matches.
\<close>

theorem errorTypeCount_first_match_in_visiting_order_witness:
  "errPatterns_entries \<in> range_map errPatterns
   \<and> rev errPatterns_entries \<in> range_map errPatterns
   \<and> errPatterns_entries
       = take 9 errPatterns_entries
         @ (''TooManyArguments'', [Lit ''Too many arguments'']) # drop 10 errPatterns_entries
   \<and> MatchString [Lit ''Too many arguments''] ''Too many arguments''
   \<and> list_all (\<lambda>(n, p). \<not> MatchString p ''Too many arguments'') (take 9 errPatterns_entries)
   \<and> length (filter (\<lambda>(name, pattern). MatchString pattern ''Too many arguments'')
        errPatterns_entries) \<le> 1
   \<and> errorTypeCount_inner errPatterns_entries ''Too many arguments'' [''TooManyArguments'' \<mapsto> 4]
       = [''TooManyArguments'' \<mapsto> 5]
   \<and> errorTypeCount_inner (rev errPatterns_entries) ''Too many arguments''
        [''TooManyArguments'' \<mapsto> 4]
       = [''TooManyArguments'' \<mapsto> 5]
   \<and> failure store_three_errors ErrorInstanceKind = None
   \<and> list_all (\<lambda>e. length (filter (\<lambda>(name, pattern). MatchString pattern (Description e))
                              errPatterns_entries) \<le> 1)
        (entitiesError store_three_errors)
   \<and> errorTypeCount store_three_errors
       = {Inr [''TooManyArguments'' \<mapsto> 1, ''VariableHasNoValue'' \<mapsto> 1]}"
proof -
  let ?d = "''Too many arguments''"
  let ?m = "[''TooManyArguments'' \<mapsto> 4::int]"
  have split: "errPatterns_entries
       = take 9 errPatterns_entries
         @ (''TooManyArguments'', [Lit ''Too many arguments'']) # drop 10 errPatterns_entries"
    by (simp add: errPatterns_entries_def)
  have hit: "MatchString [Lit ''Too many arguments''] ?d"
    by (simp add: MatchString_def)
  have before: "list_all (\<lambda>(n, p). \<not> MatchString p ?d) (take 9 errPatterns_entries)"
    by (simp add: errPatterns_entries_def MatchString_def)
  have one: "length (filter (\<lambda>(name, pattern). MatchString pattern ?d) errPatterns_entries) \<le> 1"
    by (simp add: errPatterns_entries_def MatchString_def)
  have f: "failure store_three_errors ErrorInstanceKind = None"
    by (simp add: store_three_errors_def)
  have each: "list_all (\<lambda>e. length (filter (\<lambda>(name, pattern). MatchString pattern (Description e))
                              errPatterns_entries) \<le> 1)
        (entitiesError store_three_errors)"
    by (simp add: store_three_errors_def errPatterns_entries_def MatchString_def)
  have run: "foldl (\<lambda>m e. errorTypeCount_inner errPatterns_entries (Description e) m)
               Map.empty (entitiesError store_three_errors)
      = [''TooManyArguments'' \<mapsto> 1, ''VariableHasNoValue'' \<mapsto> 1]"
    by (simp add: store_three_errors_def errPatterns_entries_def MatchString_def increment_def)
  note inst = errorTypeCount_first_match_in_visiting_order [OF errPatterns_entries_range,
      where pre = "take 9 errPatterns_entries" and name = "''TooManyArguments''"
        and pattern = "[Lit ''Too many arguments'']" and post = "drop 10 errPatterns_entries"
        and d = ?d and m = ?m and ps' = "rev errPatterns_entries" and c = store_three_errors]
  from inst [THEN conjunct1, THEN mp,
      OF conjI [OF split conjI [OF hit before [unfolded list_all_iff]]]]
  have i1: "errorTypeCount_inner errPatterns_entries ?d ?m = [''TooManyArguments'' \<mapsto> 5]"
    by simp
  from inst rev_errPatterns_entries_range one
  have "errorTypeCount_inner (rev errPatterns_entries) ?d ?m
      = errorTypeCount_inner errPatterns_entries ?d ?m"
    by blast
  then have i2: "errorTypeCount_inner (rev errPatterns_entries) ?d ?m
      = [''TooManyArguments'' \<mapsto> 5]"
    by (simp only: i1)
  from inst f each
  have "errorTypeCount store_three_errors =
      {Inr (foldl (\<lambda>m e. errorTypeCount_inner errPatterns_entries (Description e) m)
              Map.empty (entitiesError store_three_errors))}"
    by (simp add: list_all_iff)
  then have r: "errorTypeCount store_three_errors
       = {Inr [''TooManyArguments'' \<mapsto> 1, ''VariableHasNoValue'' \<mapsto> 1]}"
    by (simp only: run)
  show ?thesis
    by (intro conjI;
        fact errPatterns_entries_range rev_errPatterns_entries_range split hit before one
          i1 i2 f each r)
qed

text \<open>
  C1 as stated fails: the order of the table is not fixed, and a description that two
  patterns match is not labelled the same in any two runs. The source order of the
  entries and its reverse are both visiting orders of \<^verbatim>\<open>errPatterns\<close>. For the
  description \<^verbatim>\<open>Too many arguments: Invalid number of args\<close> the inner loop counts under
  \<^verbatim>\<open>InvalidNumberOfArgs\<close> along the first and under \<^verbatim>\<open>TooManyArguments\<close> along the second,
  and on a store whose only error has this description errorTypeCount can return
  either histogram.
\<close>

theorem errorTypeCount_depends_on_visiting_order:
  "errPatterns_entries \<in> range_map errPatterns
   \<and> rev errPatterns_entries \<in> range_map errPatterns
   \<and> errorTypeCount_inner errPatterns_entries
        ''Too many arguments: Invalid number of args'' Map.empty
       = [''InvalidNumberOfArgs'' \<mapsto> 1]
   \<and> errorTypeCount_inner (rev errPatterns_entries)
        ''Too many arguments: Invalid number of args'' Map.empty
       = [''TooManyArguments'' \<mapsto> 1]
   \<and> Inr [''InvalidNumberOfArgs'' \<mapsto> 1]
       \<in> errorTypeCount
           \<lparr>entitiesError =
              [\<lparr>errUID = ''u'', errTimestamp = 1,
                Description = ''Too many arguments: Invalid number of args''\<rparr>],
            entitiesREPLCommand = [],
            entitiesEditorContent = [],
            failure = (\<lambda>k. None)\<rparr>
   \<and> Inr [''TooManyArguments'' \<mapsto> 1]
       \<in> errorTypeCount
           \<lparr>entitiesError =
              [\<lparr>errUID = ''u'', errTimestamp = 1,
                Description = ''Too many arguments: Invalid number of args''\<rparr>],
            entitiesREPLCommand = [],
            entitiesEditorContent = [],
            failure = (\<lambda>k. None)\<rparr>"
proof -
  let ?d = "''Too many arguments: Invalid number of args''"
  have i1: "errorTypeCount_inner errPatterns_entries ?d Map.empty
      = [''InvalidNumberOfArgs'' \<mapsto> 1]"
    by (simp add: errPatterns_entries_def MatchString_def increment_def)
  have i2: "errorTypeCount_inner (rev errPatterns_entries) ?d Map.empty
      = [''TooManyArguments'' \<mapsto> 1]"
    by (simp add: errPatterns_entries_def MatchString_def increment_def)
  have l1: "errorTypeCount_loop [\<lparr>errUID = ''u'', errTimestamp = 1, Description = ?d\<rparr>]
      Map.empty [''InvalidNumberOfArgs'' \<mapsto> 1]"
    by (rule errorTypeCount_loop.loop_step [OF errPatterns_entries_range])
      (simp add: i1 errorTypeCount_loop.loop_done)
  have l2: "errorTypeCount_loop [\<lparr>errUID = ''u'', errTimestamp = 1, Description = ?d\<rparr>]
      Map.empty [''TooManyArguments'' \<mapsto> 1]"
    by (rule errorTypeCount_loop.loop_step [OF rev_errPatterns_entries_range])
      (simp add: i2 errorTypeCount_loop.loop_done)
  have r1: "Inr [''InvalidNumberOfArgs'' \<mapsto> 1]
       \<in> errorTypeCount
           \<lparr>entitiesError = [\<lparr>errUID = ''u'', errTimestamp = 1, Description = ?d\<rparr>],
            entitiesREPLCommand = [],
            entitiesEditorContent = [],
            failure = (\<lambda>k. None)\<rparr>"
    using l1 by (simp add: errorTypeCount_def GetAll_ErrorInstance_def)
  have r2: "Inr [''TooManyArguments'' \<mapsto> 1]
       \<in> errorTypeCount
           \<lparr>entitiesError = [\<lparr>errUID = ''u'', errTimestamp = 1, Description = ?d\<rparr>],
            entitiesREPLCommand = [],
            entitiesEditorContent = [],
            failure = (\<lambda>k. None)\<rparr>"
    using l2 by (simp add: errorTypeCount_def GetAll_ErrorInstance_def)
  show ?thesis
    by (intro conjI; fact errPatterns_entries_range rev_errPatterns_entries_range i1 i2 r1 r2)
qed

section \<open>Properties of the matcher\<close>

lemma matchLit_iff: "matchLit l s = Some r \<longleftrightarrow> s = l @ r"
  by (induction l s rule: matchLit.induct) auto

lemma afterRune_Cons: "\<exists>p. p \<noteq> [] \<and> c # s = p @ afterRune (c # s)"
proof -
  have "c # s = (c # take (runeWidth (c # s) - 1) s) @ afterRune (c # s)"
    by simp
  then show ?thesis
    by blast
qed

text \<open>A match at the start of the input consumes a prefix of it.\<close>

lemma matchHere_consumes: "matchHere re s = Some r \<Longrightarrow> \<exists>m. s = m @ r"
proof (induction re s arbitrary: r rule: matchHere.induct)
  case (1 s)
  then show ?case by simp
next
  case (2 l re s)
  then obtain s' where l: "matchLit l s = Some s'" and re: "matchHere re s' = Some r"
    by (auto split: option.splits)
  from "2.IH" [OF l re] obtain m where "s' = m @ r"
    by blast
  with l show ?case
    by (auto simp: matchLit_iff)
next
  case (3 cl re)
  then show ?case by simp
next
  case (4 cl re c s)
  then have cl: "inClass cl c" and re: "matchHere re (afterRune (c # s)) = Some r"
    by (auto split: if_splits)
  from "4.IH" [OF cl re] obtain m where m: "afterRune (c # s) = m @ r"
    by blast
  from afterRune_Cons [of c s] obtain p where "c # s = p @ afterRune (c # s)"
    by blast
  with m have "c # s = (p @ m) @ r"
    by simp
  then show ?case
    by blast
next
  case (5 cl re)
  then show ?case by simp
next
  case (6 cl re c s)
  show ?case
  proof (cases "inClass cl c \<and> matchHere (Star cl # re) (afterRune (c # s)) \<noteq> None")
    case True
    with "6.prems" have more: "matchHere (Star cl # re) (afterRune (c # s)) = Some r"
      by auto
    from True "6.IH"(1) [OF _ more] obtain m where m: "afterRune (c # s) = m @ r"
      by blast
    from afterRune_Cons [of c s] obtain p where "c # s = p @ afterRune (c # s)"
      by blast
    with m have "c # s = (p @ m) @ r"
      by simp
    then show ?thesis
      by blast
  next
    case False
    with "6.prems" have stop: "matchHere re (c # s) = Some r"
      by (auto split: if_splits option.splits)
    from False "6.IH"(2,3) stop show ?thesis
      by (cases "inClass cl c") auto
  qed
next
  case (7 cl re)
  then show ?case by simp
next
  case (8 cl re c s)
  then have cl: "inClass cl c"
    and re: "matchHere (Star cl # re) (afterRune (c # s)) = Some r"
    by (auto split: if_splits)
  from "8.IH" [OF cl re] obtain m where m: "afterRune (c # s) = m @ r"
    by blast
  from afterRune_Cons [of c s] obtain p where "c # s = p @ afterRune (c # s)"
    by blast
  with m have "c # s = (p @ m) @ r"
    by simp
  then show ?case
    by blast
qed

text \<open>The leftmost match is a piece of the input that the pattern matches in place.\<close>

lemma leftmost_Some:
  "leftmost re s = Some m \<Longrightarrow>
   \<exists>before after. s = before @ m @ after \<and> matchHere re (m @ after) = Some after"
proof (induction re s rule: leftmost.induct)
  case (1 re)
  then obtain rest where rest: "matchHere re [] = Some rest" and m: "m = []"
    by (auto split: option.splits)
  from matchHere_consumes [OF rest] have "rest = []"
    by simp
  with rest m show ?case
    by simp
next
  case (2 re c s)
  show ?case
  proof (cases "matchHere re (c # s)")
    case (Some rest)
    from matchHere_consumes [OF Some] obtain m' where m': "c # s = m' @ rest"
      by blast
    then have "take (length (c # s) - length rest) (c # s) = m'"
      by (metis append_eq_conv_conj length_append add_diff_cancel_right')
    with "2.prems" Some have "m = m'"
      by simp
    with m' Some have "c # s = [] @ m @ rest \<and> matchHere re (m @ rest) = Some rest"
      by simp
    then show ?thesis
      by blast
  next
    case None
    with "2.prems" have "leftmost re (afterRune (c # s)) = Some m"
      by simp
    from "2.IH" [OF None this] obtain before after
      where ba: "afterRune (c # s) = before @ m @ after"
        and ma: "matchHere re (m @ after) = Some after"
      by blast
    from afterRune_Cons [of c s] obtain p where "c # s = p @ afterRune (c # s)"
      by blast
    with ba have "c # s = (p @ before) @ m @ after"
      by simp
    with ma show ?thesis
      by blast
  qed
qed

text \<open>A greedy repetition followed by literal text: the match ends with that text.\<close>

lemma matchHere_Star_Lit:
  "matchHere [Star cl, Lit l] s = Some r \<Longrightarrow> \<exists>mid. s = mid @ l @ r"
proof (induction s rule: length_induct)
  case (1 s)
  show ?case
  proof (cases s)
    case Nil
    with "1.prems" show ?thesis
      by (auto simp: matchLit_iff split: option.splits)
  next
    case (Cons c t)
    show ?thesis
    proof (cases "inClass cl c \<and> matchHere [Star cl, Lit l] (afterRune (c # t)) \<noteq> None")
      case True
      with "1.prems" Cons have more: "matchHere [Star cl, Lit l] (afterRune (c # t)) = Some r"
        by auto
      have "length (afterRune (c # t)) < length s"
        using Cons by simp
      with "1.IH" more obtain mid where mid: "afterRune (c # t) = mid @ l @ r"
        by blast
      from afterRune_Cons [of c t] obtain p where "c # t = p @ afterRune (c # t)"
        by blast
      with mid Cons have "s = (p @ mid) @ l @ r"
        by simp
      then show ?thesis
        by blast
    next
      case False
      with "1.prems" Cons have "matchHere [Lit l] (c # t) = Some r"
        by (auto split: if_splits option.splits)
      with Cons have "s = [] @ l @ r"
        by (auto simp: matchLit_iff split: option.splits)
      then show ?thesis
        by blast
    qed
  qed
qed

text \<open>The shape of a match of literal text, one or more characters of a class, literal text.\<close>

lemma matchHere_Lit_Plus_Lit:
  assumes "matchHere [Lit a, Plus cl, Lit b] s = Some r"
  shows "\<exists>name. name \<noteq> [] \<and> s = a @ name @ b @ r"
proof -
  from assms obtain s1 where s1: "s = a @ s1"
    and plus: "matchHere [Plus cl, Lit b] s1 = Some r"
    by (auto simp: matchLit_iff split: option.splits)
  from plus obtain c t where ct: "s1 = c # t"
    and star: "matchHere [Star cl, Lit b] (afterRune (c # t)) = Some r"
    by (cases s1) (auto split: if_splits)
  from matchHere_Star_Lit [OF star] obtain mid where mid: "afterRune (c # t) = mid @ b @ r"
    by blast
  from afterRune_Cons [of c t] obtain p where p: "p \<noteq> []" "c # t = p @ afterRune (c # t)"
    by blast
  with mid s1 ct have "p @ mid \<noteq> [] \<and> s = a @ (p @ mid) @ b @ r"
    by simp
  then show ?thesis
    by blast
qed

section \<open>Properties of the tally of variableHasNoValueCount\<close>

lemma errPatterns_VariableHasNoValue:
  "errPatterns ''VariableHasNoValue'' = Some variableHasNoValue"
  by (simp add: errPatterns_def errPatterns_entries_def variableHasNoValue_def)

lemma FindString_variableHasNoValue:
  assumes "leftmost variableHasNoValue d = Some m"
  shows "\<exists>before name after. name \<noteq> []
           \<and> d = before @ ''Variable '' @ name @ '' has no value'' @ after
           \<and> m = ''Variable '' @ name @ '' has no value''"
proof -
  from leftmost_Some [OF assms] obtain before after
    where d: "d = before @ m @ after"
      and here: "matchHere variableHasNoValue (m @ after) = Some after"
    by blast
  from matchHere_Lit_Plus_Lit [OF here [unfolded variableHasNoValue_def]]
  obtain name where name: "name \<noteq> []"
    and "m @ after = ''Variable '' @ name @ '' has no value'' @ after"
    by blast
  then have "m @ after = (''Variable '' @ name @ '' has no value'') @ after"
    by (simp only: append_assoc)
  then have m: "m = ''Variable '' @ name @ '' has no value''"
    by (simp only: append_same_eq)
  from d have dd: "d = before @ ''Variable '' @ name @ '' has no value'' @ after"
    by (simp only: m append_assoc)
  show ?thesis
  proof (intro exI conjI)
    show "name \<noteq> []"
      by (rule name)
    show "d = before @ ''Variable '' @ name @ '' has no value'' @ after"
      by (rule dd)
    show "m = ''Variable '' @ name @ '' has no value''"
      by (rule m)
  qed
qed

lemma FindString_nonempty_iff:
  "FindString variableHasNoValue d \<noteq> [] \<longleftrightarrow> MatchString variableHasNoValue d"
proof (cases "leftmost variableHasNoValue d")
  case None
  then show ?thesis
    by (simp add: FindString_def MatchString_def)
next
  case (Some m)
  from FindString_variableHasNoValue [OF Some] have "m \<noteq> []"
    by auto
  with Some show ?thesis
    by (simp add: FindString_def MatchString_def)
qed

text \<open>The first loop from any starting map.\<close>

lemma variableHasNoValueCount_tally_from:
  "variableHasNoValueCount_tally es m =
     Inr (\<lambda>k. if k \<noteq> [] \<and> 0 < occurrences es k
               then Some ((case m k of None \<Rightarrow> 0 | Some n \<Rightarrow> n) + int (occurrences es k))
               else m k)"
proof (induction es arbitrary: m)
  case Nil
  then show ?case
    by (simp add: occurrences_def)
next
  case (Cons e es)
  let ?v = "FindString variableHasNoValue (Description e)"
  let ?m = "if ?v \<noteq> [] then increment m ?v else m"
  have occ: "occurrences (e # es) k
      = (if k = ?v then Suc (occurrences es k) else occurrences es k)" for k
    by (auto simp: occurrences_def)
  have "(if k \<noteq> [] \<and> 0 < occurrences es k
         then Some ((case ?m k of None \<Rightarrow> 0 | Some n \<Rightarrow> n) + int (occurrences es k))
         else ?m k)
      = (if k \<noteq> [] \<and> 0 < occurrences (e # es) k
         then Some ((case m k of None \<Rightarrow> 0 | Some n \<Rightarrow> n) + int (occurrences (e # es) k))
         else m k)" for k
  proof (cases "k = ?v")
    case True
    then show ?thesis
      by (cases "?v = []") (simp_all add: occ increment_def)
  next
    case False
    then show ?thesis
      by (cases "?v = []") (simp_all add: occ increment_def)
  qed
  then have "variableHasNoValueCount_tally es ?m =
     Inr (\<lambda>k. if k \<noteq> [] \<and> 0 < occurrences (e # es) k
               then Some ((case m k of None \<Rightarrow> 0 | Some n \<Rightarrow> n)
                            + int (occurrences (e # es) k))
               else m k)"
    by (simp only: Cons [of ?m])
  then show ?case
    by (simp add: errPatterns_VariableHasNoValue)
qed

section \<open>Properties of variableHasNoValueCount\<close>

text \<open>A finite map has a visiting order.\<close>

lemma range_map_nonempty:
  assumes "finite (dom m)"
  shows "\<exists>ps. ps \<in> range_map m"
proof -
  from finite_distinct_list [OF assms] obtain ks where ks: "set ks = dom m" "distinct ks"
    by blast
  let ?ps = "map (\<lambda>k. (k, the (m k))) ks"
  have "map fst ?ps = ks"
    by (simp add: comp_def)
  moreover have "map_of ?ps = m"
  proof
    fix k
    show "map_of ?ps k = m k"
      using ks(1) by (cases "k \<in> set ks") (auto simp: map_of_map_restrict restrict_map_def)
  qed
  ultimately have "?ps \<in> range_map m"
    using ks(2) by (simp add: range_map_def)
  then show ?thesis
    by blast
qed

lemma range_map_set: "ps \<in> range_map m \<Longrightarrow> set ps = {(k, v). m k = Some v}"
  by (auto simp: range_map_def)

lemma sort_Slice_count_info:
  fixes xs :: "variableHasNoValueInfo list"
  shows "ranked \<in> sort_Slice (\<lambda>a b. count_info a > count_info b) xs \<longleftrightarrow>
     mset ranked = mset xs \<and> sorted_wrt (\<lambda>a b. count_info a \<ge> count_info b) ranked"
  by (simp add: sort_Slice_def not_less)

lemma sort_Slice_count_info_nonempty:
  fixes xs :: "variableHasNoValueInfo list"
  shows "\<exists>ranked. ranked \<in> sort_Slice (\<lambda>a b. count_info a > count_info b) xs"
proof -
  have "sorted (map (\<lambda>x. - count_info x) (sort_key (\<lambda>x. - count_info x) xs))"
    by (rule sorted_sort_key)
  then have "sorted_wrt (\<lambda>a b. count_info a \<ge> count_info b) (sort_key (\<lambda>x. - count_info x) xs)"
    by (simp add: sorted_map)
  then have "sort_key (\<lambda>x. - count_info x) xs
      \<in> sort_Slice (\<lambda>a b. count_info a > count_info b) xs"
    by (simp add: sort_Slice_count_info)
  then show ?thesis
    by blast
qed

lemma finite_dom_tally:
  "finite (dom (\<lambda>k. if k \<noteq> [] \<and> 0 < occurrences es k
                    then Some (int (occurrences es k)) else None))"
proof (rule finite_subset)
  show "dom (\<lambda>k. if k \<noteq> [] \<and> 0 < occurrences es k then Some (int (occurrences es k)) else None)
      \<subseteq> (\<lambda>e. FindString variableHasNoValue (Description e)) ` set es"
    by (auto simp: dom_def occurrences_def filter_empty_conv split: if_splits)
  show "finite ((\<lambda>e. FindString variableHasNoValue (Description e)) ` set es)"
    by simp
qed

text \<open>The results of variableHasNoValueCount when the fetch succeeds.\<close>

lemma variableHasNoValueCount_results:
  assumes "failure c ErrorInstanceKind = None"
  shows "r \<in> variableHasNoValueCount c \<longleftrightarrow>
     (\<exists>ps ranked. r = Inr (Inr ranked)
        \<and> ps \<in> range_map (\<lambda>k. if k \<noteq> [] \<and> 0 < occurrences (entitiesError c) k
                                then Some (int (occurrences (entitiesError c) k)) else None)
        \<and> ranked \<in> sort_Slice (\<lambda>a b. count_info a > count_info b)
                     (map (\<lambda>(v, n). \<lparr>variable = v, count_info = n\<rparr>) ps))"
  using assms
  by (auto simp: variableHasNoValueCount_def GetAll_ErrorInstance_def
      variableHasNoValueCount_tally_from cong: if_cong)

text \<open>
  C6, as the code has it. When the fetch succeeds, variableHasNoValueCount returns a
  ranking; every ranking it can return is in descending order of count and has one
  entry for each tallied key, with the count of that key. Nothing is promised on the
  relative order of entries with equal counts.
\<close>

theorem variableHasNoValueCount_descending:
  assumes "failure c ErrorInstanceKind = None"
  shows "(\<exists>ranked. Inr (Inr ranked) \<in> variableHasNoValueCount c)
     \<and> (\<forall>r \<in> variableHasNoValueCount c. \<exists>ranked. r = Inr (Inr ranked)
          \<and> sorted_wrt (\<lambda>a b. count_info a \<ge> count_info b) ranked
          \<and> distinct (map variable ranked)
          \<and> set ranked =
              {\<lparr>variable = k, count_info = int (occurrences (entitiesError c) k)\<rparr> | k.
                 k \<noteq> [] \<and> 0 < occurrences (entitiesError c) k})"
proof (intro conjI ballI)
  let ?m = "\<lambda>k. if k \<noteq> [] \<and> 0 < occurrences (entitiesError c) k
                then Some (int (occurrences (entitiesError c) k)) else None"
  from range_map_nonempty [OF finite_dom_tally [of "entitiesError c"]]
  obtain ps where ps: "ps \<in> range_map ?m"
    by blast
  from sort_Slice_count_info_nonempty
  obtain ranked where "ranked \<in> sort_Slice (\<lambda>a b. count_info a > count_info b)
                     (map (\<lambda>(v, n). \<lparr>variable = v, count_info = n\<rparr>) ps)"
    by blast
  with ps have "Inr (Inr ranked) \<in> variableHasNoValueCount c"
    unfolding variableHasNoValueCount_results [OF assms] by blast
  then show "\<exists>ranked. Inr (Inr ranked) \<in> variableHasNoValueCount c"
    by blast
next
  let ?m = "\<lambda>k. if k \<noteq> [] \<and> 0 < occurrences (entitiesError c) k
                then Some (int (occurrences (entitiesError c) k)) else None"
  let ?mk = "\<lambda>(v, n). \<lparr>variable = v, count_info = n\<rparr>"
  fix r assume "r \<in> variableHasNoValueCount c"
  then obtain ps ranked where r: "r = Inr (Inr ranked)"
    and ps: "ps \<in> range_map ?m"
    and ranked: "ranked \<in> sort_Slice (\<lambda>a b. count_info a > count_info b) (map ?mk ps)"
    unfolding variableHasNoValueCount_results [OF assms] by blast
  from ranked have ms: "mset ranked = mset (map ?mk ps)"
    and desc: "sorted_wrt (\<lambda>a b. count_info a \<ge> count_info b) ranked"
    by (simp_all add: sort_Slice_count_info)
  have "map variable (map ?mk ps) = map fst ps"
    by (simp add: comp_def case_prod_beta)
  with ms have "mset (map variable ranked) = mset (map fst ps)"
    by (metis mset_map)
  moreover from ps have "distinct (map fst ps)"
    by (simp add: range_map_def)
  ultimately have dist: "distinct (map variable ranked)"
    using mset_eq_imp_distinct_iff by blast
  from ms have "set ranked = set (map ?mk ps)"
    by (rule mset_eq_setD)
  then have "set ranked = ?mk ` set ps"
    by simp
  also have "\<dots> = {\<lparr>variable = k, count_info = int (occurrences (entitiesError c) k)\<rparr> | k.
                 k \<noteq> [] \<and> 0 < occurrences (entitiesError c) k}"
    by (auto simp: range_map_set [OF ps] image_iff split: if_splits)
  finally show "\<exists>ranked. r = Inr (Inr ranked)
          \<and> sorted_wrt (\<lambda>a b. count_info a \<ge> count_info b) ranked
          \<and> distinct (map variable ranked)
          \<and> set ranked =
              {\<lparr>variable = k, count_info = int (occurrences (entitiesError c) k)\<rparr> | k.
                 k \<noteq> [] \<and> 0 < occurrences (entitiesError c) k}"
    using r desc dist by blast
qed


text \<open>How to show that a ranking is among the results.\<close>

lemma variableHasNoValueCount_member:
  assumes "failure c ErrorInstanceKind = None"
    and "variableHasNoValueCount_tally (entitiesError c) Map.empty = Inr (map_of ps)"
    and "distinct (map fst ps)"
    and "mset ranked = mset (map (\<lambda>(v, n). \<lparr>variable = v, count_info = n\<rparr>) ps)"
    and "sorted_wrt (\<lambda>a b. count_info a \<ge> count_info b) ranked"
  shows "Inr (Inr ranked) \<in> variableHasNoValueCount c"
proof -
  from assms(3) have "ps \<in> range_map (map_of ps)"
    by (simp add: range_map_def)
  moreover from assms(4,5)
  have "ranked \<in> sort_Slice (\<lambda>a b. count_info a > count_info b)
                   (map (\<lambda>(v, n). \<lparr>variable = v, count_info = n\<rparr>) ps)"
    by (simp add: sort_Slice_count_info)
  ultimately show ?thesis
    using assms(1,2)
    by (auto simp: variableHasNoValueCount_def GetAll_ErrorInstance_def)
qed

lemma tally_two_variables:
  "variableHasNoValueCount_tally (entitiesError store_two_variables) Map.empty
     = Inr [''Variable a has no value'' \<mapsto> 1, ''Variable b has no value'' \<mapsto> 1]"
  by (simp add: store_two_variables_def errPatterns_VariableHasNoValue FindString_def
      variableHasNoValue_def increment_def)

text \<open>
  The theorem at the store with two errors on different variables and the ranking that
  lists the variable \<open>a\<close> first.
\<close>

theorem variableHasNoValueCount_descending_witness:
  "failure store_two_variables ErrorInstanceKind = None
   \<and> Inr (Inr [\<lparr>variable = ''Variable a has no value'', count_info = 1\<rparr>,
               \<lparr>variable = ''Variable b has no value'', count_info = 1\<rparr>])
       \<in> variableHasNoValueCount store_two_variables
   \<and> sorted_wrt (\<lambda>a b. count_info a \<ge> count_info b)
        [\<lparr>variable = ''Variable a has no value'', count_info = 1\<rparr>,
         \<lparr>variable = ''Variable b has no value'', count_info = 1\<rparr>]
   \<and> set [\<lparr>variable = ''Variable a has no value'', count_info = 1\<rparr>,
           \<lparr>variable = ''Variable b has no value'', count_info = 1\<rparr>]
       = {\<lparr>variable = k, count_info = int (occurrences (entitiesError store_two_variables) k)\<rparr>
            | k. k \<noteq> [] \<and> 0 < occurrences (entitiesError store_two_variables) k}"
proof -
  let ?ab = "[\<lparr>variable = ''Variable a has no value'', count_info = 1\<rparr>,
              \<lparr>variable = ''Variable b has no value'', count_info = 1\<rparr>]"
  have f: "failure store_two_variables ErrorInstanceKind = None"
    by (simp add: store_two_variables_def)
  have t: "variableHasNoValueCount_tally (entitiesError store_two_variables) Map.empty
      = Inr (map_of [(''Variable b has no value'', 1), (''Variable a has no value'', 1)])"
    by (simp add: tally_two_variables)
  have r: "Inr (Inr ?ab) \<in> variableHasNoValueCount store_two_variables"
    by (rule variableHasNoValueCount_member [OF f t]) simp_all
  from variableHasNoValueCount_descending [OF f] r
  have "\<exists>ranked. (Inr (Inr ?ab) :: panic + string + variableHasNoValueInfo list)
          = Inr (Inr ranked)
      \<and> sorted_wrt (\<lambda>a b. count_info a \<ge> count_info b) ranked
      \<and> distinct (map variable ranked)
      \<and> set ranked =
          {\<lparr>variable = k, count_info = int (occurrences (entitiesError store_two_variables) k)\<rparr>
             | k. k \<noteq> [] \<and> 0 < occurrences (entitiesError store_two_variables) k}"
    by blast
  then have "sorted_wrt (\<lambda>a b. count_info a \<ge> count_info b) ?ab
      \<and> set ?ab =
          {\<lparr>variable = k, count_info = int (occurrences (entitiesError store_two_variables) k)\<rparr>
             | k. k \<noteq> [] \<and> 0 < occurrences (entitiesError store_two_variables) k}"
    by blast
  with f r show ?thesis
    by blast
qed

text \<open>
  C6 as stated fails on the order of ties. On the store with one error on the variable
  \<open>a\<close> and one on the variable \<open>b\<close>, both counted once, the ranking that lists \<open>a\<close> first
  and the ranking that lists \<open>b\<close> first are both results of variableHasNoValueCount:
  either is an order in which the \<^verbatim>\<open>range\<close> over \<^verbatim>\<open>instanceCnt\<close> may visit the two keys,
  and it is in descending order of count.
\<close>

theorem variableHasNoValueCount_ties_not_determined:
  "Inr (Inr [\<lparr>variable = ''Variable a has no value'', count_info = 1\<rparr>,
             \<lparr>variable = ''Variable b has no value'', count_info = 1\<rparr>])
     \<in> variableHasNoValueCount store_two_variables
   \<and> Inr (Inr [\<lparr>variable = ''Variable b has no value'', count_info = 1\<rparr>,
               \<lparr>variable = ''Variable a has no value'', count_info = 1\<rparr>])
       \<in> variableHasNoValueCount store_two_variables"
proof
  have f: "failure store_two_variables ErrorInstanceKind = None"
    by (simp add: store_two_variables_def)
  have t: "variableHasNoValueCount_tally (entitiesError store_two_variables) Map.empty
      = Inr (map_of [(''Variable b has no value'', 1), (''Variable a has no value'', 1)])"
    by (simp add: tally_two_variables)
  show "Inr (Inr [\<lparr>variable = ''Variable a has no value'', count_info = 1\<rparr>,
             \<lparr>variable = ''Variable b has no value'', count_info = 1\<rparr>])
     \<in> variableHasNoValueCount store_two_variables"
    by (rule variableHasNoValueCount_member [OF f t]) simp_all
  show "Inr (Inr [\<lparr>variable = ''Variable b has no value'', count_info = 1\<rparr>,
               \<lparr>variable = ''Variable a has no value'', count_info = 1\<rparr>])
       \<in> variableHasNoValueCount store_two_variables"
    by (rule variableHasNoValueCount_member [OF f t]) simp_all
qed

text \<open>The entries of every ranking that variableHasNoValueCount can return.\<close>

lemma variableHasNoValueCount_entries:
  assumes "failure c ErrorInstanceKind = None" and "r \<in> variableHasNoValueCount c"
  shows "\<exists>ranked. r = Inr (Inr ranked)
     \<and> set ranked =
         {\<lparr>variable = k, count_info = int (occurrences (entitiesError c) k)\<rparr> | k.
            k \<noteq> [] \<and> 0 < occurrences (entitiesError c) k}"
proof -
  let ?m = "\<lambda>k. if k \<noteq> [] \<and> 0 < occurrences (entitiesError c) k
                then Some (int (occurrences (entitiesError c) k)) else None"
  let ?mk = "\<lambda>(v, n). \<lparr>variable = v, count_info = n\<rparr>"
  from assms(2) obtain ps ranked where r: "r = Inr (Inr ranked)"
    and ps: "ps \<in> range_map ?m"
    and ranked: "ranked \<in> sort_Slice (\<lambda>a b. count_info a > count_info b) (map ?mk ps)"
    unfolding variableHasNoValueCount_results [OF assms(1)] by blast
  from ranked have "mset ranked = mset (map ?mk ps)"
    by (simp add: sort_Slice_count_info)
  then have "set ranked = set (map ?mk ps)"
    by (rule mset_eq_setD)
  then have "set ranked = ?mk ` set ps"
    by simp
  also have "\<dots> = {\<lparr>variable = k, count_info = int (occurrences (entitiesError c) k)\<rparr> | k.
                 k \<noteq> [] \<and> 0 < occurrences (entitiesError c) k}"
    by (auto simp: range_map_set [OF ps] image_iff split: if_splits)
  finally show ?thesis
    using r by blast
qed

lemma occurrences_pos_iff:
  "0 < occurrences es k \<longleftrightarrow>
     (\<exists>e \<in> set es. FindString variableHasNoValue (Description e) = k)"
  by (auto simp: occurrences_def filter_empty_conv)

text \<open>
  C8. When the fetch succeeds, variableHasNoValueCount returns a ranking, and in every
  ranking it can return: a fetched error record has an entry under the match text of
  its description if and only if the pattern \<^verbatim>\<open>Variable <name> has no value\<close> matches the
  description; the count of an entry is the number of fetched records whose match text
  is the key of the entry; and every key is the whole matched piece
  \<^verbatim>\<open>Variable <name> has no value\<close> of some fetched description, with its literal text,
  not the name alone. The function reads the pattern under the key
  \<^verbatim>\<open>VariableHasNoValue\<close> and nothing of the histogram: whether a record is tallied
  depends on this one pattern only.
\<close>

theorem variableHasNoValueCount_keys_are_full_matches:
  assumes "failure c ErrorInstanceKind = None"
  shows "errPatterns ''VariableHasNoValue'' = Some variableHasNoValue
     \<and> (\<exists>ranked. Inr (Inr ranked) \<in> variableHasNoValueCount c)
     \<and> (\<forall>r \<in> variableHasNoValueCount c. \<exists>ranked. r = Inr (Inr ranked)
          \<and> (\<forall>e \<in> set (entitiesError c).
                MatchString variableHasNoValue (Description e)
                  \<longleftrightarrow> (\<exists>x \<in> set ranked.
                         variable x = FindString variableHasNoValue (Description e)))
          \<and> (\<forall>x \<in> set ranked.
                count_info x =
                  int (length (filter (\<lambda>e. FindString variableHasNoValue (Description e)
                                            = variable x) (entitiesError c)))
                \<and> (\<exists>e \<in> set (entitiesError c). \<exists>before name after. name \<noteq> []
                      \<and> Description e = before @ ''Variable '' @ name @ '' has no value'' @ after
                      \<and> variable x = ''Variable '' @ name @ '' has no value'')))"
proof (intro conjI ballI)
  show "errPatterns ''VariableHasNoValue'' = Some variableHasNoValue"
    by (rule errPatterns_VariableHasNoValue)
next
  let ?m = "\<lambda>k. if k \<noteq> [] \<and> 0 < occurrences (entitiesError c) k
                then Some (int (occurrences (entitiesError c) k)) else None"
  from range_map_nonempty [OF finite_dom_tally [of "entitiesError c"]]
  obtain ps where ps: "ps \<in> range_map ?m"
    by blast
  from sort_Slice_count_info_nonempty
  obtain ranked where "ranked \<in> sort_Slice (\<lambda>a b. count_info a > count_info b)
                     (map (\<lambda>(v, n). \<lparr>variable = v, count_info = n\<rparr>) ps)"
    by blast
  with ps have "Inr (Inr ranked) \<in> variableHasNoValueCount c"
    unfolding variableHasNoValueCount_results [OF assms] by blast
  then show "\<exists>ranked. Inr (Inr ranked) \<in> variableHasNoValueCount c"
    by blast
next
  fix r assume "r \<in> variableHasNoValueCount c"
  from variableHasNoValueCount_entries [OF assms this]
  obtain ranked where r: "r = Inr (Inr ranked)"
    and entries: "set ranked =
         {\<lparr>variable = k, count_info = int (occurrences (entitiesError c) k)\<rparr> | k.
            k \<noteq> [] \<and> 0 < occurrences (entitiesError c) k}"
    by blast
  have tallied: "MatchString variableHasNoValue (Description e)
        \<longleftrightarrow> (\<exists>x \<in> set ranked. variable x = FindString variableHasNoValue (Description e))"
    if e: "e \<in> set (entitiesError c)" for e
  proof
    let ?k = "FindString variableHasNoValue (Description e)"
    assume "MatchString variableHasNoValue (Description e)"
    then have "?k \<noteq> []"
      by (simp add: FindString_nonempty_iff)
    moreover from e have "0 < occurrences (entitiesError c) ?k"
      unfolding occurrences_pos_iff by blast
    ultimately have "\<lparr>variable = ?k, count_info = int (occurrences (entitiesError c) ?k)\<rparr>
        \<in> set ranked"
      unfolding entries by blast
    then show "\<exists>x \<in> set ranked. variable x = ?k"
      by force
  next
    let ?k = "FindString variableHasNoValue (Description e)"
    assume "\<exists>x \<in> set ranked. variable x = ?k"
    then obtain x where "x \<in> set ranked" and "variable x = ?k"
      by blast
    then have "?k \<noteq> []"
      unfolding entries by auto
    then show "MatchString variableHasNoValue (Description e)"
      by (simp add: FindString_nonempty_iff)
  qed
  have keys: "count_info x =
        int (length (filter (\<lambda>e. FindString variableHasNoValue (Description e) = variable x)
                       (entitiesError c)))
      \<and> (\<exists>e \<in> set (entitiesError c). \<exists>before name after. name \<noteq> []
            \<and> Description e = before @ ''Variable '' @ name @ '' has no value'' @ after
            \<and> variable x = ''Variable '' @ name @ '' has no value'')"
    if x: "x \<in> set ranked" for x
  proof
    from x obtain k where xk: "x = \<lparr>variable = k, count_info = int (occurrences (entitiesError c) k)\<rparr>"
      and k: "k \<noteq> []" and pos: "0 < occurrences (entitiesError c) k"
      unfolding entries by blast
    from xk have vk: "variable x = k" and ck: "count_info x = int (occurrences (entitiesError c) k)"
      by simp_all
    show "count_info x =
        int (length (filter (\<lambda>e. FindString variableHasNoValue (Description e) = variable x)
                       (entitiesError c)))"
      by (simp only: ck vk occurrences_def)
    from pos obtain e where e: "e \<in> set (entitiesError c)"
      and fk: "FindString variableHasNoValue (Description e) = k"
      unfolding occurrences_pos_iff by blast
    from fk k have "leftmost variableHasNoValue (Description e) = Some k"
      by (cases "leftmost variableHasNoValue (Description e)") (simp_all add: FindString_def)
    from FindString_variableHasNoValue [OF this]
    obtain before name after where "name \<noteq> []"
      and "Description e = before @ ''Variable '' @ name @ '' has no value'' @ after"
      and "k = ''Variable '' @ name @ '' has no value''"
      by blast
    with e vk show "\<exists>e \<in> set (entitiesError c). \<exists>before name after. name \<noteq> []
            \<and> Description e = before @ ''Variable '' @ name @ '' has no value'' @ after
            \<and> variable x = ''Variable '' @ name @ '' has no value''"
      by blast
  qed
  from r tallied keys
  show "\<exists>ranked. r = Inr (Inr ranked)
          \<and> (\<forall>e \<in> set (entitiesError c).
                MatchString variableHasNoValue (Description e)
                  \<longleftrightarrow> (\<exists>x \<in> set ranked.
                         variable x = FindString variableHasNoValue (Description e)))
          \<and> (\<forall>x \<in> set ranked.
                count_info x =
                  int (length (filter (\<lambda>e. FindString variableHasNoValue (Description e)
                                            = variable x) (entitiesError c)))
                \<and> (\<exists>e \<in> set (entitiesError c). \<exists>before name after. name \<noteq> []
                      \<and> Description e = before @ ''Variable '' @ name @ '' has no value'' @ after
                      \<and> variable x = ''Variable '' @ name @ '' has no value''))"
    by blast
qed

text \<open>
  The theorem at the store whose first error is matched by both \<^verbatim>\<open>TooManyArguments\<close> and
  \<^verbatim>\<open>VariableHasNoValue\<close>: errorTypeCount can count both errors under
  \<^verbatim>\<open>TooManyArguments\<close>, and the ranking still has the first error, once, under the key
  \<^verbatim>\<open>Variable foo has no value\<close>; the second error, which the pattern does not match, is
  not tallied.
\<close>

theorem variableHasNoValueCount_keys_are_full_matches_witness:
  "failure store_overlapping_error ErrorInstanceKind = None
   \<and> Inr (Inr [\<lparr>variable = ''Variable foo has no value'', count_info = 1\<rparr>])
       \<in> variableHasNoValueCount store_overlapping_error
   \<and> MatchString variableHasNoValue ''Too many arguments: Variable foo has no value''
   \<and> FindString variableHasNoValue ''Too many arguments: Variable foo has no value''
       = ''Variable foo has no value''
   \<and> \<not> MatchString variableHasNoValue ''Too many arguments''
   \<and> count_info \<lparr>variable = ''Variable foo has no value'', count_info = 1\<rparr>
       = int (length (filter (\<lambda>e. FindString variableHasNoValue (Description e)
                                   = ''Variable foo has no value'')
                        (entitiesError store_overlapping_error)))
   \<and> Inr [''TooManyArguments'' \<mapsto> 2] \<in> errorTypeCount store_overlapping_error"
proof -
  let ?d = "''Too many arguments: Variable foo has no value''"
  let ?x = "\<lparr>variable = ''Variable foo has no value'', count_info = 1\<rparr>"
  have f: "failure store_overlapping_error ErrorInstanceKind = None"
    by (simp add: store_overlapping_error_def)
  have m: "MatchString variableHasNoValue ?d"
    by (simp add: MatchString_def variableHasNoValue_def)
  have g: "FindString variableHasNoValue ?d = ''Variable foo has no value''"
    by (simp add: FindString_def variableHasNoValue_def)
  have n: "\<not> MatchString variableHasNoValue ''Too many arguments''"
    by (simp add: MatchString_def variableHasNoValue_def)
  have t: "variableHasNoValueCount_tally (entitiesError store_overlapping_error) Map.empty
      = Inr (map_of [(''Variable foo has no value'', 1)])"
    by (simp add: store_overlapping_error_def errPatterns_VariableHasNoValue FindString_def
        variableHasNoValue_def increment_def)
  have r: "Inr (Inr [?x]) \<in> variableHasNoValueCount store_overlapping_error"
    by (rule variableHasNoValueCount_member [OF f t]) simp_all
  from variableHasNoValueCount_keys_are_full_matches
      [OF f, THEN conjunct2, THEN conjunct2, THEN bspec, OF r]
  obtain ranked where eq: "(Inr (Inr [?x]) :: panic + string + variableHasNoValueInfo list)
          = Inr (Inr ranked)"
    and ks: "\<forall>x \<in> set ranked.
            count_info x =
              int (length (filter (\<lambda>e. FindString variableHasNoValue (Description e)
                                        = variable x)
                             (entitiesError store_overlapping_error)))
            \<and> (\<exists>e \<in> set (entitiesError store_overlapping_error).
                  \<exists>before name after. name \<noteq> []
                    \<and> Description e = before @ ''Variable '' @ name @ '' has no value'' @ after
                    \<and> variable x = ''Variable '' @ name @ '' has no value'')"
    by (elim exE conjE)
  from eq have "ranked = [?x]"
    by simp
  then have "?x \<in> set ranked"
    by simp
  from bspec [OF ks this, THEN conjunct1]
  have k: "count_info ?x
       = int (length (filter (\<lambda>e. FindString variableHasNoValue (Description e)
                                   = ''Variable foo has no value'')
                        (entitiesError store_overlapping_error)))"
    by (simp only: variableHasNoValueInfo.simps)
  have i1: "errorTypeCount_inner (rev errPatterns_entries) ?d Map.empty
      = [''TooManyArguments'' \<mapsto> 1]"
    by (simp add: errPatterns_entries_def MatchString_def increment_def)
  have i2: "errorTypeCount_inner (rev errPatterns_entries) ''Too many arguments''
      [''TooManyArguments'' \<mapsto> 1] = [''TooManyArguments'' \<mapsto> 2]"
    by (simp add: errPatterns_entries_def MatchString_def increment_def)
  have l2: "errorTypeCount_loop
      [\<lparr>errUID = ''u'', errTimestamp = 2, Description = ''Too many arguments''\<rparr>]
      [''TooManyArguments'' \<mapsto> 1] [''TooManyArguments'' \<mapsto> 2]"
    by (rule errorTypeCount_loop.loop_step [OF rev_errPatterns_entries_range])
      (simp add: i2 errorTypeCount_loop.loop_done)
  have l1: "errorTypeCount_loop
      [\<lparr>errUID = ''u'', errTimestamp = 1, Description = ?d\<rparr>,
       \<lparr>errUID = ''u'', errTimestamp = 2, Description = ''Too many arguments''\<rparr>]
      Map.empty [''TooManyArguments'' \<mapsto> 2]"
    by (rule errorTypeCount_loop.loop_step [OF rev_errPatterns_entries_range])
      (simp add: i1 l2)
  have h: "Inr [''TooManyArguments'' \<mapsto> 2] \<in> errorTypeCount store_overlapping_error"
    using l1
    by (simp add: errorTypeCount_def GetAll_ErrorInstance_def store_overlapping_error_def)
  show ?thesis
    by (intro conjI; fact f r m g n k h)
qed

section \<open>Properties of getUIDs and editorUse\<close>

lemma getUIDs_set_lookup:
  "getUIDs_set replCommands uidSet k =
     (if k \<in> cmdUID ` set replCommands then Some () else uidSet k)"
  by (induction replCommands arbitrary: uidSet) auto

lemma getUIDs_results:
  assumes "failure c REPLCommandKind = None"
  shows "r \<in> getUIDs c \<longleftrightarrow>
     (\<exists>uids. r = Inr uids \<and> distinct uids \<and> set uids = cmdUID ` set (entitiesREPLCommand c))"
proof -
  let ?m = "getUIDs_set (entitiesREPLCommand c) Map.empty"
  have dom: "dom ?m = cmdUID ` set (entitiesREPLCommand c)"
    by (auto simp: getUIDs_set_lookup dom_def)
  have key: "(\<exists>ps. uids = map fst ps \<and> ps \<in> range_map ?m)
      \<longleftrightarrow> distinct uids \<and> set uids = cmdUID ` set (entitiesREPLCommand c)" for uids
  proof
    assume "\<exists>ps. uids = map fst ps \<and> ps \<in> range_map ?m"
    then obtain ps where u: "uids = map fst ps" and d: "distinct (map fst ps)"
      and m: "map_of ps = ?m"
      by (auto simp: range_map_def)
    from m have "fst ` set ps = dom ?m"
      by (simp add: dom_map_of_conv_image_fst [symmetric])
    with u d dom show "distinct uids \<and> set uids = cmdUID ` set (entitiesREPLCommand c)"
      by simp
  next
    assume a: "distinct uids \<and> set uids = cmdUID ` set (entitiesREPLCommand c)"
    let ?ps = "map (\<lambda>k. (k, ())) uids"
    have "map_of ?ps = ?m"
    proof
      fix k
      show "map_of ?ps k = ?m k"
        using a by (cases "k \<in> set uids")
          (auto simp: map_of_map_restrict restrict_map_def getUIDs_set_lookup)
    qed
    moreover have "map fst ?ps = uids"
      by (simp add: comp_def)
    ultimately have "uids = map fst ?ps \<and> ?ps \<in> range_map ?m"
      using a by (simp add: range_map_def)
    then show "\<exists>ps. uids = map fst ps \<and> ps \<in> range_map ?m"
      by blast
  qed
  have "r \<in> getUIDs c \<longleftrightarrow> (\<exists>ps. r = Inr (map fst ps) \<and> ps \<in> range_map ?m)"
    using assms by (auto simp: getUIDs_def GetAll_REPLCommand_def)
  also have "\<dots> \<longleftrightarrow> (\<exists>uids. r = Inr uids \<and> (\<exists>ps. uids = map fst ps \<and> ps \<in> range_map ?m))"
    by blast
  also have "\<dots> \<longleftrightarrow> (\<exists>uids. r = Inr uids \<and> distinct uids
                        \<and> set uids = cmdUID ` set (entitiesREPLCommand c))"
    by (simp only: key)
  finally show ?thesis .
qed

lemma editorUse_loop_count:
  assumes "failure c EditorContentKind = None"
  shows "editorUse_loop c uids n =
     Inr (n + int (length (filter (\<lambda>u. \<exists>e \<in> set (entitiesEditorContent c). edUID e = u) uids)))"
proof (induction uids arbitrary: n)
  case Nil
  then show ?case by simp
next
  case (Cons u uids)
  have "0 < length (filter (\<lambda>x. edUID x = u) (entitiesEditorContent c))
      \<longleftrightarrow> (\<exists>e \<in> set (entitiesEditorContent c). edUID e = u)"
    by (auto simp: filter_empty_conv)
  with assms Cons show ?case
    by (simp add: Count_EditorContent_def)
qed

text \<open>
  C9. When the fetch of the commands succeeds, getUIDs returns a list of uids, and every
  list it can return holds each uid of a command record once and nothing else: a user
  without command record is absent, whatever errors or editor saves the user has. For
  such a list editorUse (when its counts succeed) returns the number of uids of command
  records that have an editor save, and the length of the list, the denominator of the
  ratio that \<^verbatim>\<open>main\<close> prints, is the number of uids of command records: a user without
  command record enters neither number.
\<close>

theorem getUIDs_from_commands_only:
  assumes "failure c REPLCommandKind = None" and "failure c EditorContentKind = None"
  shows "(\<exists>uids. Inr uids \<in> getUIDs c)
     \<and> (\<forall>r \<in> getUIDs c. \<exists>uids. r = Inr uids
          \<and> distinct uids
          \<and> set uids = cmdUID ` set (entitiesREPLCommand c)
          \<and> (u \<notin> cmdUID ` set (entitiesREPLCommand c) \<longrightarrow> u \<notin> set uids)
          \<and> int (length uids) = int (card (cmdUID ` set (entitiesREPLCommand c)))
          \<and> editorUse c uids =
              Inr (int (card {u \<in> cmdUID ` set (entitiesREPLCommand c).
                                \<exists>e \<in> set (entitiesEditorContent c). edUID e = u})))"
proof (intro conjI ballI)
  from finite_distinct_list [of "cmdUID ` set (entitiesREPLCommand c)"]
  obtain uids where "set uids = cmdUID ` set (entitiesREPLCommand c)" and "distinct uids"
    by auto
  then have "Inr uids \<in> getUIDs c"
    unfolding getUIDs_results [OF assms(1)] by blast
  then show "\<exists>uids. Inr uids \<in> getUIDs c"
    by blast
next
  fix r assume "r \<in> getUIDs c"
  then obtain uids where r: "r = Inr uids" and d: "distinct uids"
    and s: "set uids = cmdUID ` set (entitiesREPLCommand c)"
    unfolding getUIDs_results [OF assms(1)] by blast
  from d s have len: "length uids = card (cmdUID ` set (entitiesREPLCommand c))"
    using distinct_card [of uids] by simp
  have "{u \<in> cmdUID ` set (entitiesREPLCommand c).
          \<exists>e \<in> set (entitiesEditorContent c). edUID e = u}
      = {u. \<exists>e \<in> set (entitiesEditorContent c). edUID e = u} \<inter> set uids"
    using s by auto
  with d have "length (filter (\<lambda>u. \<exists>e \<in> set (entitiesEditorContent c). edUID e = u) uids)
      = card {u \<in> cmdUID ` set (entitiesREPLCommand c).
                \<exists>e \<in> set (entitiesEditorContent c). edUID e = u}"
    by (simp add: distinct_length_filter)
  then have "editorUse c uids =
      Inr (int (card {u \<in> cmdUID ` set (entitiesREPLCommand c).
                        \<exists>e \<in> set (entitiesEditorContent c). edUID e = u}))"
    by (simp add: editorUse_def editorUse_loop_count [OF assms(2)])
  with r d s len show "\<exists>uids. r = Inr uids
          \<and> distinct uids
          \<and> set uids = cmdUID ` set (entitiesREPLCommand c)
          \<and> (u \<notin> cmdUID ` set (entitiesREPLCommand c) \<longrightarrow> u \<notin> set uids)
          \<and> int (length uids) = int (card (cmdUID ` set (entitiesREPLCommand c)))
          \<and> editorUse c uids =
              Inr (int (card {u \<in> cmdUID ` set (entitiesREPLCommand c).
                                \<exists>e \<in> set (entitiesEditorContent c). edUID e = u}))"
    by simp
qed

text \<open>
  The theorem at the store of four users: the uids of the commands are \<open>u\<close> and \<open>x\<close>; the
  user \<open>v\<close>, who only met an error, and the user \<open>w\<close>, who only saved the editor, are not
  returned, and one of two users used the editor.
\<close>

theorem getUIDs_from_commands_only_witness:
  "failure store_four_users REPLCommandKind = None
   \<and> failure store_four_users EditorContentKind = None
   \<and> Inr [''u'', ''x''] \<in> getUIDs store_four_users
   \<and> ''v'' \<notin> cmdUID ` set (entitiesREPLCommand store_four_users)
   \<and> ''w'' \<notin> cmdUID ` set (entitiesREPLCommand store_four_users)
   \<and> ''w'' \<notin> set [''u'', ''x'']
   \<and> editorUse store_four_users [''u'', ''x''] = Inr 1
   \<and> int (length [''u'', ''x'']) = 2"
proof -
  have f: "failure store_four_users REPLCommandKind = None"
    and g: "failure store_four_users EditorContentKind = None"
    by (simp_all add: store_four_users_def)
  have cmds: "cmdUID ` set (entitiesREPLCommand store_four_users) = {''u'', ''x''}"
    by (auto simp: store_four_users_def)
  have r: "Inr [''u'', ''x''] \<in> getUIDs store_four_users"
    unfolding getUIDs_results [OF f] cmds by auto
  have eds: "{u \<in> cmdUID ` set (entitiesREPLCommand store_four_users).
                \<exists>e \<in> set (entitiesEditorContent store_four_users). edUID e = u}
      = {''u''}"
    by (auto simp: store_four_users_def)
  from getUIDs_from_commands_only [OF f g, of "''w''"] r
  have "editorUse store_four_users [''u'', ''x''] =
      Inr (int (card {u \<in> cmdUID ` set (entitiesREPLCommand store_four_users).
                        \<exists>e \<in> set (entitiesEditorContent store_four_users). edUID e = u}))
    \<and> (''w'' \<notin> cmdUID ` set (entitiesREPLCommand store_four_users) \<longrightarrow> ''w'' \<notin> set [''u'', ''x''])"
    by blast
  then have "editorUse store_four_users [''u'', ''x''] = Inr 1 \<and> ''w'' \<notin> set [''u'', ''x'']"
    unfolding eds by (simp add: cmds)
  with f g r show ?thesis
    by (simp add: cmds)
qed

end
